theory Spec2Isabelle
  imports Complex_Main
begin

section \<open>Paged media iterators of the helpers package\<close>

text \<open>
  The Go sources define a generic paging iterator \<^verbatim>\<open>baseIter[M, F]\<close> and a two-phase
  \<^verbatim>\<open>randomAlbumIter\<close>. Both pull pages from fetch closures of type
  \<^verbatim>\<open>func(offset, limit int) ([]*M, error)\<close> and hand out one item per call of
  \<^verbatim>\<open>Next()\<close>; a \<^verbatim>\<open>nil\<close> result is the end-marker.

  Conventions of the embedding:
  \<^item> A pointer \<^verbatim>\<open>*M\<close> is an \<open>option\<close>: \<open>None\<close> is \<^verbatim>\<open>nil\<close>. The result of \<^verbatim>\<open>Next()\<close> is
    such a pointer, and \<^verbatim>\<open>nil\<close> is what the caller reads as the end-marker.
  \<^item> A page \<^verbatim>\<open>[]*M\<close> of the generic iterator is a list of pointers, any of which may
    be \<^verbatim>\<open>nil\<close>: the generic iterator never looks into an item, it hands the pointer to
    the filter and to the caller. Go's \<^verbatim>\<open>nil\<close> slice is the empty list (the code only
    ever takes \<^verbatim>\<open>len\<close> of a slice, ranges over it or indexes it).
  \<^item> A page of the random album iterator is a list of albums: that iterator reads
    \<^verbatim>\<open>album.ID\<close> of every element of a page, so a \<^verbatim>\<open>nil\<close> element makes the call panic
    before it returns, and no result of \<^verbatim>\<open>Next()\<close> depends on one.
  \<^item> A fetch closure talks to a server, so two calls with equal arguments may answer
    differently (the random sort does so on purpose). The model's fetch function
    therefore receives, before offset and limit, the number of fetches the iterator
    has issued so far.
  \<^item> Each iterator carries two ghost fields that the Go struct does not have: the log
    of fetches issued (arguments and answer), and the list of what the prefetch
    goroutines were spawned on, in spawn order (the items for the generic iterator,
    the cover-art IDs for the random album iterator). What the goroutines do is not
    modelled: they run concurrently with the caller, after \<^verbatim>\<open>Next()\<close> has spawned them.
    (The callbacks that the constructors of the generic iterator install read
    \<^verbatim>\<open>a.CoverArtID\<close> of the item they get; \<open>b_spawned\<close> shows when one was spawned on
    \<^verbatim>\<open>nil\<close>.)
  \<^item> Offsets and positions are \<open>nat\<close>: they start at zero and only grow by slice
    lengths, far below the range of a 64-bit \<^verbatim>\<open>int\<close>.
  \<^item> A call of \<^verbatim>\<open>Next()\<close> may loop forever (a server that keeps sending pages of which
    the filter keeps nothing), so the loops are partial functions into \<open>option\<close>,
    and it may panic on an index out of range, which is the outcome \<open>Panic\<close>.
\<close>

type_synonym error = string

text \<open>The two methods of \<^verbatim>\<open>mediaprovider.MediaFilter\<close> that the iterators call.\<close>

record 'm MediaFilter =
  IsNil :: bool
  Matches :: "'m \<Rightarrow> bool"

type_synonym 'm fetchResult = "'m list \<times> error option"

type_synonym 'm fetchFn = "nat \<Rightarrow> nat \<Rightarrow> nat \<Rightarrow> 'm fetchResult"

text \<open>The fields of \<^verbatim>\<open>mediaprovider.Album\<close> that the iterators read.\<close>

record Album =
  ID :: string
  CoverArtID :: string

datatype control = Continue | Leave | ReturnNil

datatype 'a outcome = Panic | Return 'a

text \<open>
  Modelled from the spec: \<^verbatim>\<open>sharedutil.FilterSlice\<close> is not among the sources; the
  iterator uses it to "remove non-matching items from the page client-side".
\<close>

definition FilterSlice :: "'a list \<Rightarrow> ('a \<Rightarrow> bool) \<Rightarrow> 'a list" where
  "FilterSlice ss f = filter f ss"

subsection \<open>The generic iterator\<close>

text \<open>
  The filter, the fetch function and the buffer of \<^verbatim>\<open>baseIter[M, F]\<close> are over the
  pointers \<^verbatim>\<open>*M\<close>, that is over \<open>'m option\<close>. \<open>b_prefetchCB\<close> says whether the callback
  \<^verbatim>\<open>prefetchCB\<close> is non-nil.
\<close>

record 'm baseIter =
  b_filter :: "'m option MediaFilter"
  b_prefetchCB :: bool
  b_serverPos :: nat
  b_fetcher :: "'m option fetchFn"
  b_prefetched :: "'m option list"
  b_prefetchedPos :: nat
  b_done :: bool
  b_log :: "(nat \<times> nat \<times> 'm option fetchResult) list"
  b_spawned :: "'m option list"

text \<open>
  The composite literal \<^verbatim>\<open>&baseIter{prefetchCB: .., filter: .., fetcher: ..}\<close> of the three
  constructors: every other field has Go's zero value. Each constructor sets
  \<^verbatim>\<open>prefetchCB\<close> to a closure around the sink \<^verbatim>\<open>cb\<close>, so the callback is non-nil; the sink
  itself is opaque.
\<close>

definition newBaseIter :: "'m option MediaFilter \<Rightarrow> 'm option fetchFn \<Rightarrow> 'm baseIter" where
  "newBaseIter flt fetchFn =
     \<lparr>b_filter = flt, b_prefetchCB = True, b_serverPos = 0, b_fetcher = fetchFn,
      b_prefetched = [], b_prefetchedPos = 0, b_done = False, b_log = [], b_spawned = []\<rparr>"

definition nilFilter :: "'m MediaFilter" where
  "nilFilter = \<lparr>IsNil = True, Matches = (\<lambda>_. True)\<rparr>"

definition NewAlbumIterator ::
  "Album option fetchFn \<Rightarrow> Album option MediaFilter \<Rightarrow> Album baseIter" where
  "NewAlbumIterator fetchFn flt = newBaseIter flt fetchFn"

definition NewArtistIterator ::
  "'artist option fetchFn \<Rightarrow> 'artist option MediaFilter \<Rightarrow> 'artist baseIter" where
  "NewArtistIterator fetchFn flt = newBaseIter flt fetchFn"

definition NewTrackIterator :: "'track option fetchFn \<Rightarrow> 'track baseIter" where
  "NewTrackIterator fetchFn = newBaseIter nilFilter fetchFn"

text \<open>One round of the loop \<^verbatim>\<open>for { .. }\<close> of \<^verbatim>\<open>baseIter.Next\<close>.\<close>

definition fetchStep :: "'m baseIter \<Rightarrow> control \<times> 'm baseIter" where
  "fetchStep r =
    (let resp = b_fetcher r (length (b_log r)) (b_serverPos r) 20;
         r1 = r\<lparr>b_log := b_log r @ [(b_serverPos r, 20, resp)]\<rparr>;
         items = (if snd resp \<noteq> None then [] else fst resp)
     in if length items = 0 then (ReturnNil, r1\<lparr>b_done := True\<rparr>)
        else
          let r2 = r1\<lparr>b_serverPos := b_serverPos r1 + length items\<rparr>;
              items' = (if \<not> IsNil (b_filter r2)
                        then FilterSlice items (Matches (b_filter r2)) else items);
              r3 = r2\<lparr>b_prefetched := items'\<rparr>
          in if length items' > 0 then (Leave, r3) else (Continue, r3))"

partial_function (option) fetchLoop :: "'m baseIter \<Rightarrow> (control \<times> 'm baseIter) option" where
  "fetchLoop r =
     (case fetchStep r of
        (Continue, r') \<Rightarrow> fetchLoop r'
      | (c, r') \<Rightarrow> Some (c, r'))"

text \<open>The loop \<^verbatim>\<open>for _, item := range r.prefetched { go r.prefetchCB(item) }\<close>.\<close>

definition spawnPrefetch :: "'m baseIter \<Rightarrow> 'm baseIter" where
  "spawnPrefetch r =
     (if b_prefetchCB r then r\<lparr>b_spawned := b_spawned r @ b_prefetched r\<rparr> else r)"

text \<open>
  \<^verbatim>\<open>baseIter.Next\<close>. The two \<^verbatim>\<open>return\<close> statements that hand out an item return the
  pointer found in the buffer as it is, also when it is \<^verbatim>\<open>nil\<close>.
\<close>

definition baseIter_Next :: "'m baseIter \<Rightarrow> ('m option \<times> 'm baseIter) outcome option" where
  "baseIter_Next r =
    (if b_done r then Some (Return (None, r))
     else if b_prefetched r \<noteq> [] \<and> b_prefetchedPos r < length (b_prefetched r) then
       Some (Return (b_prefetched r ! b_prefetchedPos r,
                     r\<lparr>b_prefetchedPos := b_prefetchedPos r + 1\<rparr>))
     else
       (case fetchLoop (r\<lparr>b_prefetched := []\<rparr>) of
          None \<Rightarrow> None
        | Some (ReturnNil, r') \<Rightarrow> Some (Return (None, r'))
        | Some (_, r') \<Rightarrow>
            (let r2 = spawnPrefetch (r'\<lparr>b_prefetchedPos := 1\<rparr>)
             in if 0 < length (b_prefetched r2)
                then Some (Return (b_prefetched r2 ! 0, r2))
                else Some Panic)))"

subsection \<open>Successive calls by the single consumer\<close>

text \<open>
  \<open>calls next n r\<close> is the list of results of \<open>n\<close> successive calls of \<open>next\<close>, starting
  from the iterator \<open>r\<close>, with the iterator they leave; \<open>None\<close> when one of the calls
  does not return.
\<close>

fun calls ::
  "('s \<Rightarrow> ('a \<times> 's) outcome option) \<Rightarrow> nat \<Rightarrow> 's \<Rightarrow> ('a list \<times> 's) option" where
  "calls nxt 0 r = Some ([], r)"
| "calls nxt (Suc n) r =
     (case nxt r of
        Some (Return (x, r')) \<Rightarrow>
          (case calls nxt n r' of
             Some (xs, r'') \<Rightarrow> Some (x # xs, r'')
           | None \<Rightarrow> None)
      | _ \<Rightarrow> None)"

text \<open>The items among a list of pointers: those that are not \<^verbatim>\<open>nil\<close>.\<close>

definition items_of :: "'a option list \<Rightarrow> 'a list" where
  "items_of outs = concat (map (\<lambda>x. case x of None \<Rightarrow> [] | Some a \<Rightarrow> [a]) outs)"

subsection \<open>The random album iterator\<close>

datatype fetcherId = RandomFetcher | DeterministicFetcher

text \<open>
  \<^verbatim>\<open>albumIDSet\<close> is a \<^verbatim>\<open>map[string]bool\<close>; the \<^verbatim>\<open>nil\<close> map that \<^verbatim>\<open>Next\<close> stores when it
  finishes is the empty map (a lookup in a \<^verbatim>\<open>nil\<close> map finds nothing). \<open>r_prefetchCB\<close>
  says whether the sink \<^verbatim>\<open>prefetchCB\<close> is non-nil.
\<close>

record randomAlbumIter =
  r_filter :: "Album MediaFilter"
  r_prefetchCB :: bool
  r_albumIDSet :: "string \<rightharpoonup> bool"
  r_prefetched :: "Album list"
  r_prefetchedPos :: nat
  r_deterministicFetcher :: "Album fetchFn"
  r_ramdomFetcher :: "Album fetchFn"
  r_phaseTwo :: bool
  r_offset :: nat
  r_done :: bool
  r_log :: "(fetcherId \<times> nat \<times> nat \<times> Album fetchResult) list"
  r_spawned :: "string list"

definition NewRandomAlbumIter ::
  "Album fetchFn \<Rightarrow> Album fetchFn \<Rightarrow> Album MediaFilter \<Rightarrow> bool \<Rightarrow> randomAlbumIter" where
  "NewRandomAlbumIter deterministicFetcher randomFetcher flt prefetchCoverCB =
     \<lparr>r_filter = flt, r_prefetchCB = prefetchCoverCB, r_albumIDSet = Map.empty,
      r_prefetched = [], r_prefetchedPos = 0,
      r_deterministicFetcher = deterministicFetcher, r_ramdomFetcher = randomFetcher,
      r_phaseTwo = False, r_offset = 0, r_done = False, r_log = [], r_spawned = []\<rparr>"

text \<open>\<^verbatim>\<open>r.prefetched = append(r.prefetched, album)\<close> followed by the guarded \<^verbatim>\<open>go\<close>.\<close>

definition appendPrefetched :: "randomAlbumIter \<Rightarrow> Album \<Rightarrow> randomAlbumIter" where
  "appendPrefetched r album =
     r\<lparr>r_prefetched := r_prefetched r @ [album],
       r_spawned := (if r_prefetchCB r then r_spawned r @ [Album.CoverArtID album]
                     else r_spawned r)\<rparr>"

text \<open>The \<^verbatim>\<open>range\<close> loop over the page in phase two.\<close>

fun phaseTwoScan :: "randomAlbumIter \<Rightarrow> Album list \<Rightarrow> randomAlbumIter" where
  "phaseTwoScan r [] = r"
| "phaseTwoScan r (album # albums) =
     phaseTwoScan
       (if r_albumIDSet r (Album.ID album) = None \<and> Matches (r_filter r) album
        then (appendPrefetched r album)
               \<lparr>r_albumIDSet := (r_albumIDSet r)(Album.ID album \<mapsto> True)\<rparr>
        else r)
       albums"

text \<open>The \<^verbatim>\<open>range\<close> loop over the batch in phase one, with its counter \<^verbatim>\<open>hitCount\<close>.\<close>

fun phaseOneScan :: "randomAlbumIter \<Rightarrow> nat \<Rightarrow> Album list \<Rightarrow> randomAlbumIter \<times> nat" where
  "phaseOneScan r hitCount [] = (r, hitCount)"
| "phaseOneScan r hitCount (album # albums) =
     (if r_albumIDSet r (Album.ID album) = None then
        (let r1 = r\<lparr>r_albumIDSet := (r_albumIDSet r)(Album.ID album \<mapsto> True)\<rparr>
         in phaseOneScan
              (if Matches (r_filter r1) album then appendPrefetched r1 album else r1)
              (hitCount + 1) albums)
      else phaseOneScan r hitCount albums)"

text \<open>
  One round of the loop \<^verbatim>\<open>for len(r.prefetched) == 0 { .. }\<close>. The quotient
  \<^verbatim>\<open>float64(hitCount) / float64(25)\<close> is compared with \<^verbatim>\<open>0.3\<close> over the reals: the
  quotients next to the threshold are \<open>7/25 = 0.28\<close> and \<open>8/25 = 0.32\<close>, far beyond the
  rounding error of a \<^verbatim>\<open>float64\<close>, so both comparisons agree.
\<close>

definition fillStep :: "randomAlbumIter \<Rightarrow> control \<times> randomAlbumIter" where
  "fillStep r =
    (if r_phaseTwo r then
       (let resp = r_deterministicFetcher r (length (r_log r)) (r_offset r) 25;
            r1 = r\<lparr>r_log := r_log r @ [(DeterministicFetcher, r_offset r, 25, resp)]\<rparr>;
            albums = (if snd resp \<noteq> None then [] else fst resp)
        in if length albums = 0
           then (ReturnNil, r1\<lparr>r_done := True, r_albumIDSet := Map.empty\<rparr>)
           else (Continue, phaseTwoScan (r1\<lparr>r_offset := r_offset r1 + length albums\<rparr>) albums))
     else
       (let resp = r_ramdomFetcher r (length (r_log r)) 0 25;
            r1 = r\<lparr>r_log := r_log r @ [(RandomFetcher, 0, 25, resp)]\<rparr>
        in if snd resp \<noteq> None
           then (ReturnNil, r1\<lparr>r_done := True, r_albumIDSet := Map.empty\<rparr>)
           else
             (let scanned = phaseOneScan r1 0 (fst resp);
                  r2 = fst scanned;
                  hitCount = snd scanned;
                  successRatio = real hitCount / real 25
              in (Continue, if successRatio < 0.3 then r2\<lparr>r_phaseTwo := True\<rparr> else r2))))"

partial_function (option) fillLoop ::
  "randomAlbumIter \<Rightarrow> (control \<times> randomAlbumIter) option" where
  "fillLoop r =
     (if length (r_prefetched r) = 0 then
        (case fillStep r of
           (ReturnNil, r') \<Rightarrow> Some (ReturnNil, r')
         | (_, r') \<Rightarrow> fillLoop r')
      else Some (Leave, r))"

definition randomAlbumIter_Next ::
  "randomAlbumIter \<Rightarrow> (Album option \<times> randomAlbumIter) outcome option" where
  "randomAlbumIter_Next r =
    (if r_done r then Some (Return (None, r))
     else
       (case fillLoop r of
          None \<Rightarrow> None
        | Some (ReturnNil, r') \<Rightarrow> Some (Return (None, r'))
        | Some (_, r') \<Rightarrow>
            if length (r_prefetched r') > 0 then
              (if r_prefetchedPos r' < length (r_prefetched r') then
                 (let a = r_prefetched r' ! r_prefetchedPos r';
                      r2 = r'\<lparr>r_prefetchedPos := r_prefetchedPos r' + 1\<rparr>;
                      r3 = (if r_prefetchedPos r2 = length (r_prefetched r2)
                            then r2\<lparr>r_prefetched := [], r_prefetchedPos := 0\<rparr> else r2)
                  in Some (Return (Some a, r3)))
               else Some Panic)
            else Some (Return (None, r'))))"


subsection \<open>Fetch functions for the examples\<close>

text \<open>
  A fetch function that answers its \<open>k\<close>-th call with the \<open>k\<close>-th entry of a script,
  whatever offset and limit it is given, and with an empty page once the script is used
  up.
\<close>

definition scripted :: "'m fetchResult list \<Rightarrow> 'm fetchFn" where
  "scripted script k offset limit = (if k < length script then script ! k else ([], None))"

section \<open>Filter translation of the Jellyfin provider\<close>

text \<open>
  The fields of \<^verbatim>\<open>mediaprovider.AlbumFilterOptions\<close> and of \<^verbatim>\<open>jellyfin.Filter\<close> that
  \<^verbatim>\<open>jfFilterFromFilter\<close> reads or writes. A \<^verbatim>\<open>nil\<close> slice of genres is the empty list,
  the array \<^verbatim>\<open>[2]int\<close> a pair.
\<close>

record AlbumFilterOptions =
  ExcludeUnfavorited :: bool
  MinYear :: int
  MaxYear :: int
  Genres :: "string list"

record jellyfin_Filter =
  Favorite :: bool
  YearRange :: "int \<times> int"
  Genres :: "string list"

text \<open>
  An \<^verbatim>\<open>AlbumFilter\<close> is an object that the caller and the provider both hold, so the
  filters live in a store and are passed by reference: the store lists the options of
  every filter allocated so far, and a reference is an index into it.
\<close>

type_synonym filterRef = nat

type_synonym filterStore = "AlbumFilterOptions list"

text \<open>
  Modelled from the spec: the methods \<^verbatim>\<open>Clone\<close>, \<^verbatim>\<open>Options\<close> and \<^verbatim>\<open>SetOptions\<close> of
  \<^verbatim>\<open>mediaprovider.AlbumFilter\<close> are not among the sources. A filter is "clonable (to
  produce a modified copy without mutating the caller's original)" and "mutable via a
  get/set options round-trip": \<open>Clone\<close> allocates a new filter with the same options,
  \<open>Options\<close> reads the options of a filter and \<open>SetOptions\<close> overwrites them. On a
  reference that is not allocated each of them fails, as a method call on a \<^verbatim>\<open>nil\<close>
  interface does.
\<close>

definition Clone :: "filterStore \<Rightarrow> filterRef \<Rightarrow> (filterRef \<times> filterStore) option" where
  "Clone h f = (if f < length h then Some (length h, h @ [h ! f]) else None)"

definition Options :: "filterStore \<Rightarrow> filterRef \<Rightarrow> AlbumFilterOptions option" where
  "Options h f = (if f < length h then Some (h ! f) else None)"

definition SetOptions ::
  "filterStore \<Rightarrow> filterRef \<Rightarrow> AlbumFilterOptions \<Rightarrow> filterStore option" where
  "SetOptions h f options = (if f < length h then Some (h[f := options]) else None)"

text \<open>\<^verbatim>\<open>var jfFilt jellyfin.Filter\<close>: the zero value.\<close>

definition zero_Filter :: jellyfin_Filter where
  "zero_Filter = \<lparr>Favorite = False, YearRange = (0, 0), Genres = []\<rparr>"

text \<open>
  The three statements of \<^verbatim>\<open>jfFilterFromFilter\<close> that move a constraint from the
  options into the native filter, each on the pair of the two local variables.
\<close>

definition pushFavorite ::
  "jellyfin_Filter \<times> AlbumFilterOptions \<Rightarrow> jellyfin_Filter \<times> AlbumFilterOptions" where
  "pushFavorite p =
     (case p of (jfFilt, filterOptions) \<Rightarrow>
        if ExcludeUnfavorited filterOptions
        then (jfFilt\<lparr>Favorite := True\<rparr>, filterOptions\<lparr>ExcludeUnfavorited := False\<rparr>)
        else (jfFilt, filterOptions))"

definition pushYears ::
  "int \<Rightarrow> jellyfin_Filter \<times> AlbumFilterOptions \<Rightarrow> jellyfin_Filter \<times> AlbumFilterOptions" where
  "pushYears currentYear p =
     (case p of (jfFilt, filterOptions) \<Rightarrow>
        if MinYear filterOptions > 0 \<and> MaxYear filterOptions > 0
        then (jfFilt\<lparr>YearRange := (MinYear filterOptions, MaxYear filterOptions)\<rparr>,
              filterOptions\<lparr>MinYear := 0, MaxYear := 0\<rparr>)
        else if MinYear filterOptions > 0
        then (jfFilt\<lparr>YearRange := (MinYear filterOptions, currentYear)\<rparr>,
              filterOptions\<lparr>MinYear := 0, MaxYear := 0\<rparr>)
        else if MaxYear filterOptions > 0
        then (jfFilt\<lparr>YearRange := (1900, MaxYear filterOptions)\<rparr>,
              filterOptions\<lparr>MinYear := 0, MaxYear := 0\<rparr>)
        else (jfFilt, filterOptions))"

definition pushGenres ::
  "jellyfin_Filter \<times> AlbumFilterOptions \<Rightarrow> jellyfin_Filter \<times> AlbumFilterOptions" where
  "pushGenres p =
     (case p of (jfFilt, filterOptions) \<Rightarrow>
        (jfFilt\<lparr>jellyfin_Filter.Genres := AlbumFilterOptions.Genres filterOptions\<rparr>,
         filterOptions\<lparr>AlbumFilterOptions.Genres := []\<rparr>))"

text \<open>
  \<^verbatim>\<open>jfFilterFromFilter\<close>, with the store passed through and the value of
  \<^verbatim>\<open>time.Now().Year()\<close> as a parameter. It returns the native filter, the reference of
  the modified filter and the store.
\<close>

definition jfFilterFromFilter ::
  "int \<Rightarrow> filterStore \<Rightarrow> filterRef \<Rightarrow>
     ((jellyfin_Filter \<times> filterRef) \<times> filterStore) outcome" where
  "jfFilterFromFilter currentYear h flt =
     (case Clone h flt of
        None \<Rightarrow> Panic
      | Some (modifiedFilter, h1) \<Rightarrow>
          (case Options h1 modifiedFilter of
             None \<Rightarrow> Panic
           | Some filterOptions \<Rightarrow>
               (case pushGenres
                       (pushYears currentYear (pushFavorite (zero_Filter, filterOptions))) of
                  (jfFilt, filterOptions') \<Rightarrow>
                    (case SetOptions h1 modifiedFilter filterOptions' of
                       None \<Rightarrow> Panic
                     | Some h2 \<Rightarrow> Return ((jfFilt, modifiedFilter), h2)))))"

text \<open>An album for the examples, with the given ID.\<close>

definition exampleAlbum :: "string \<Rightarrow> Album" where
  "exampleAlbum i = \<lparr>ID = i, CoverArtID = ''cover-'' @ i\<rparr>"

section \<open>Invariants of the random album iterator\<close>

text \<open>
  While a page is scanned: the IDs in \<open>S\<close> and those of the buffered albums are all in
  \<open>albumIDSet\<close>, the buffered albums have distinct IDs, and none of them is in \<open>S\<close>.
\<close>

definition scanInv :: "string set \<Rightarrow> randomAlbumIter \<Rightarrow> bool" where
  "scanInv S r \<longleftrightarrow>
     S \<union> Album.ID ` set (r_prefetched r) \<subseteq> dom (r_albumIDSet r) \<and>
     distinct (map Album.ID (r_prefetched r)) \<and>
     S \<inter> Album.ID ` set (r_prefetched r) = {}"

text \<open>
  Between the rounds and the calls, for the list \<open>returned\<close> of the IDs handed out so far:
  they are distinct, and unless the iterator is done, the read position is inside a
  non-empty buffer and zero for an empty one, the IDs handed out and the buffered ones
  are in \<open>albumIDSet\<close>, and the albums still to be handed out from the buffer are not
  among those handed out.
\<close>

definition dedupInv :: "string list \<Rightarrow> randomAlbumIter \<Rightarrow> bool" where
  "dedupInv returned r \<longleftrightarrow>
     distinct returned \<and>
     (\<not> r_done r \<longrightarrow>
        (r_prefetched r = [] \<longrightarrow> r_prefetchedPos r = 0) \<and>
        (r_prefetched r \<noteq> [] \<longrightarrow> r_prefetchedPos r < length (r_prefetched r)) \<and>
        set returned \<union> Album.ID ` set (r_prefetched r) \<subseteq> dom (r_albumIDSet r) \<and>
        distinct (map Album.ID (r_prefetched r)) \<and>
        set returned \<inter> Album.ID ` set (drop (r_prefetchedPos r) (r_prefetched r)) = {})"

section \<open>The offsets of successive fetches\<close>

text \<open>An entry of a fetch log: the offset and the limit passed, and the page returned.\<close>

definition fetchOffset :: "nat \<times> nat \<times> 'm fetchResult \<Rightarrow> nat" where
  "fetchOffset e = fst e"

definition fetchLimit :: "nat \<times> nat \<times> 'm fetchResult \<Rightarrow> nat" where
  "fetchLimit e = fst (snd e)"

definition fetchedItems :: "nat \<times> nat \<times> 'm fetchResult \<Rightarrow> 'm list" where
  "fetchedItems e = fst (snd (snd e))"

text \<open>
  The fetches of a log are chained: each asks for \<open>limit\<close> items, the first at offset
  \<open>0\<close>, and each later one at the offset of the fetch before it plus the number of items
  that fetch returned, which is a strictly larger offset.
\<close>

definition offsetsChained :: "nat \<Rightarrow> (nat \<times> nat \<times> 'm fetchResult) list \<Rightarrow> bool" where
  "offsetsChained limit L \<longleftrightarrow>
     (\<forall>k<length L. fetchLimit (L ! k) = limit) \<and>
     (L \<noteq> [] \<longrightarrow> fetchOffset (L ! 0) = 0) \<and>
     (\<forall>k. Suc k < length L \<longrightarrow>
        fetchOffset (L ! Suc k) = fetchOffset (L ! k) + length (fetchedItems (L ! k)) \<and>
        fetchOffset (L ! k) < fetchOffset (L ! Suc k))"

text \<open>The fetches that a random album iterator has issued to its deterministic fetcher.\<close>

definition deterministicLog :: "randomAlbumIter \<Rightarrow> (nat \<times> nat \<times> Album fetchResult) list" where
  "deterministicLog r = map snd (filter (\<lambda>e. fst e = DeterministicFetcher) (r_log r))"

text \<open>
  The invariant behind the chaining: unless the iterator is finished, its position is
  the offset after the last fetch, and the last fetch returned a page that is not empty.
\<close>

definition nextOffset :: "(nat \<times> nat \<times> 'm fetchResult) list \<Rightarrow> nat" where
  "nextOffset L = (if L = [] then 0 else fetchOffset (last L) + length (fetchedItems (last L)))"

definition chainInv :: "nat \<Rightarrow> bool \<Rightarrow> nat \<Rightarrow> (nat \<times> nat \<times> 'm fetchResult) list \<Rightarrow> bool" where
  "chainInv limit finished pos L \<longleftrightarrow>
     offsetsChained limit L \<and>
     (\<not> finished \<longrightarrow> pos = nextOffset L \<and> (L \<noteq> [] \<longrightarrow> fetchedItems (last L) \<noteq> []))"

section \<open>What the server returned\<close>

text \<open>
  The items of a logged fetch as the iterators take them (none when the fetch failed),
  and the items of all the fetches of a log, in order.
\<close>

definition effectiveItems :: "nat \<times> nat \<times> 'm fetchResult \<Rightarrow> 'm list" where
  "effectiveItems e = (if snd (snd (snd e)) \<noteq> None then [] else fst (snd (snd e)))"

definition served :: "(nat \<times> nat \<times> 'm fetchResult) list \<Rightarrow> 'm list" where
  "served L = concat (map effectiveItems L)"

section \<open>Passing through\<close>

text \<open>
  What it means that an iterator passes on what the server returned, for the results
  \<open>outs\<close> of a run of calls that ends in the state \<open>r\<close>. While the iterator is not done,
  the results followed by the unread rest of the buffer are the elements of all pages
  fetched without error, in the order of the server, nil elements included. Once it is
  done, the results are those elements followed by end-markers only. In both cases the
  items returned (the results that are not nil) followed by the items still buffered are
  the items the server returned.
\<close>

definition passedThrough :: "'m option list \<Rightarrow> 'm baseIter \<Rightarrow> bool" where
  "passedThrough outs r \<longleftrightarrow>
     (\<not> b_done r \<longrightarrow>
        outs @ drop (b_prefetchedPos r) (b_prefetched r) = served (b_log r)) \<and>
     (b_done r \<longrightarrow> (\<exists>k. outs = served (b_log r) @ replicate k None)) \<and>
     items_of outs @ items_of (drop (b_prefetchedPos r) (b_prefetched r))
       = items_of (served (b_log r))"

section \<open>Two runs over the same responses\<close>

text \<open>
  To compare two runs of an iterator over different fetch closures: the same iterator
  with its fetch closure (its two fetch closures) replaced, and what it means that a
  fetch function \<open>g\<close> answers the fetches of a log, from the fetch number \<open>start\<close> on, as
  the log records them: asked for the \<open>k\<close>-th fetch with the offset and the limit
  logged, \<open>g\<close> returns the answer logged. For the random album iterator the log says
  which of the two fetchers each fetch went to.
\<close>

definition withFetcher :: "'m option fetchFn \<Rightarrow> 'm baseIter \<Rightarrow> 'm baseIter" where
  "withFetcher g r = r\<lparr>b_fetcher := g\<rparr>"

definition withFetchers ::
  "Album fetchFn \<Rightarrow> Album fetchFn \<Rightarrow> randomAlbumIter \<Rightarrow> randomAlbumIter" where
  "withFetchers gd gr r = r\<lparr>r_deterministicFetcher := gd, r_ramdomFetcher := gr\<rparr>"

definition answersAs ::
  "'m fetchFn \<Rightarrow> nat \<Rightarrow> (nat \<times> nat \<times> 'm fetchResult) list \<Rightarrow> bool" where
  "answersAs g start L \<longleftrightarrow>
     list_all (\<lambda>k. g k (fetchOffset (L ! k)) (fetchLimit (L ! k)) = snd (snd (L ! k)))
       [start..<length L]"

definition answersAsBoth ::
  "Album fetchFn \<Rightarrow> Album fetchFn \<Rightarrow> nat \<Rightarrow>
     (fetcherId \<times> nat \<times> nat \<times> Album fetchResult) list \<Rightarrow> bool" where
  "answersAsBoth gd gr start L \<longleftrightarrow>
     list_all
       (\<lambda>k. (case fst (L ! k) of DeterministicFetcher \<Rightarrow> gd | RandomFetcher \<Rightarrow> gr)
               k (fst (snd (L ! k))) (fst (snd (snd (L ! k))))
             = snd (snd (snd (L ! k))))
       [start..<length L]"

text \<open>The fetch that the next round of the loop of \<^verbatim>\<open>randomAlbumIter.Next\<close> issues.\<close>

definition nextFetch :: "randomAlbumIter \<Rightarrow> fetcherId \<times> nat \<times> nat \<times> Album fetchResult" where
  "nextFetch r =
     (if r_phaseTwo r
      then (DeterministicFetcher, r_offset r, 25,
            r_deterministicFetcher r (length (r_log r)) (r_offset r) 25)
      else (RandomFetcher, 0, 25, r_ramdomFetcher r (length (r_log r)) 0 25))"

section \<open>Proof rules for the loops and for successive calls\<close>

text \<open>
  A loop that returns satisfies \<open>Q\<close> on exit when \<open>I\<close> holds at its head and every round
  keeps \<open>I\<close> or leaves the loop with \<open>Q\<close>.
\<close>

lemma fetchLoop_rule:
  assumes run: "fetchLoop r = Some (c, r')"
    and init: "I r"
    and step: "\<And>s d s'. I s \<Longrightarrow> fetchStep s = (d, s') \<Longrightarrow>
                 (d = Continue \<longrightarrow> I s') \<and> (d \<noteq> Continue \<longrightarrow> Q d s')"
  shows "Q c r'"
proof -
  have "I r \<longrightarrow> Q (fst (c, r')) (snd (c, r'))"
  proof (rule fetchLoop.raw_induct[where P = "\<lambda>s y. I s \<longrightarrow> Q (fst y) (snd y)", OF _ run],
      goal_cases)
    case (1 loop s y)
    show ?case
    proof
      assume inv: "I s"
      obtain d s' where st: "fetchStep s = (d, s')" by (cases "fetchStep s")
      show "Q (fst y) (snd y)"
      proof (cases "d = Continue")
        case True
        with 1(2) st have "loop s' = Some y" by simp
        moreover from step[OF inv st] True have "I s'" by simp
        ultimately show ?thesis using 1(1) by blast
      next
        case False
        with 1(2) st have "y = (d, s')" by (cases d) auto
        with step[OF inv st] False show ?thesis by simp
      qed
    qed
  qed
  with init show ?thesis by simp
qed

lemma fillLoop_rule:
  assumes run: "fillLoop r = Some (c, r')"
    and init: "I r"
    and step: "\<And>s d s'. I s \<Longrightarrow> r_prefetched s = [] \<Longrightarrow> fillStep s = (d, s') \<Longrightarrow>
                 (d = ReturnNil \<longrightarrow> Q ReturnNil s') \<and> (d \<noteq> ReturnNil \<longrightarrow> I s')"
    and leave: "\<And>s. I s \<Longrightarrow> r_prefetched s \<noteq> [] \<Longrightarrow> Q Leave s"
  shows "Q c r'"
proof -
  have "I r \<longrightarrow> Q (fst (c, r')) (snd (c, r'))"
  proof (rule fillLoop.raw_induct[where P = "\<lambda>s y. I s \<longrightarrow> Q (fst y) (snd y)", OF _ run],
      goal_cases)
    case (1 loop s y)
    show ?case
    proof
      assume inv: "I s"
      show "Q (fst y) (snd y)"
      proof (cases "r_prefetched s = []")
        case False
        with 1(2) have "y = (Leave, s)" by simp
        with leave[OF inv False] show ?thesis by simp
      next
        case True
        obtain d s' where st: "fillStep s = (d, s')" by (cases "fillStep s")
        show ?thesis
        proof (cases "d = ReturnNil")
          case True
          with 1(2) st \<open>r_prefetched s = []\<close> have "y = (ReturnNil, s')" by simp
          with step[OF inv \<open>r_prefetched s = []\<close> st] True show ?thesis by simp
        next
          case False
          with 1(2) st \<open>r_prefetched s = []\<close> have "loop s' = Some y" by (cases d) auto
          moreover from step[OF inv \<open>r_prefetched s = []\<close> st] False have "I s'" by simp
          ultimately show ?thesis using 1(1) by blast
        qed
      qed
    qed
  qed
  with init show ?thesis by simp
qed

text \<open>
  An invariant \<open>I\<close> over the results so far and the iterator, kept by every call that
  returns, holds after any number of calls.
\<close>

lemma calls_rule:
  assumes run: "calls nxt n r = Some (outs, r')"
    and init: "I acc r"
    and step: "\<And>a s x s'. I a s \<Longrightarrow> nxt s = Some (Return (x, s')) \<Longrightarrow> I (a @ [x]) s'"
  shows "I (acc @ outs) r'"
  using run init
proof (induction n arbitrary: acc r outs)
  case 0
  then show ?case by simp
next
  case (Suc n)
  from Suc.prems(1) obtain x r1 xs where
    n1: "nxt r = Some (Return (x, r1))" and rest: "calls nxt n r1 = Some (xs, r')"
    and outs: "outs = x # xs"
    by (auto split: option.splits outcome.splits prod.splits)
  from step[OF Suc.prems(2) n1] have "I (acc @ [x]) r1" .
  from Suc.IH[OF rest this] show ?case by (simp add: outs)
qed

lemma calls_add:
  "calls nxt (m + n) r =
     (case calls nxt m r of
        None \<Rightarrow> None
      | Some (xs, r1) \<Rightarrow>
          (case calls nxt n r1 of None \<Rightarrow> None | Some (ys, r2) \<Rightarrow> Some (xs @ ys, r2)))"
  by (induction m arbitrary: r)
     (auto split: option.splits outcome.splits prod.splits)

text \<open>
  The equation of \<open>fetchLoop\<close> in a form that the simplifier can unfold on a concrete
  iterator without running into the recursive call under the case.
\<close>

lemma fetchLoop_code:
  "fetchLoop r = (if fst (fetchStep r) = Continue then fetchLoop (snd (fetchStep r))
                  else Some (fetchStep r))"
  by (subst fetchLoop.simps) (auto split: prod.splits control.splits)

text \<open>Unfolding the generic iterator on a concrete iterator.\<close>

lemmas base_run_simps = baseIter_Next_def fetchLoop_code fetchStep_def Let_def
  newBaseIter_def scripted_def spawnPrefetch_def FilterSlice_def nilFilter_def numeral_eq_Suc

section \<open>How the loops are left\<close>

lemma fetchLoop_exit:
  assumes "fetchLoop r = Some (c, r')"
  shows "c \<noteq> Continue \<and> (c = ReturnNil \<longrightarrow> b_done r') \<and>
         (c = Leave \<longrightarrow> b_prefetched r' \<noteq> [])"
  by (rule fetchLoop_rule[OF assms, where I = "\<lambda>_. True"])
     (auto simp: fetchStep_def Let_def split: if_splits)

lemma fillLoop_exit:
  assumes "fillLoop r = Some (c, r')"
  shows "c \<noteq> Continue \<and> (c = ReturnNil \<longrightarrow> r_done r') \<and>
         (c = Leave \<longrightarrow> r_prefetched r' \<noteq> [])"
  by (rule fillLoop_rule[OF assms, where I = "\<lambda>_. True"])
     (auto simp: fillStep_def Let_def split: if_splits)

section \<open>Exhaustion\<close>

lemma baseIter_done_calls:
  "b_done r \<Longrightarrow> calls baseIter_Next n r = Some (replicate n None, r)"
  by (induction n) (auto simp: baseIter_Next_def)

lemma randomAlbumIter_Next_nil_done:
  "randomAlbumIter_Next r = Some (Return (None, r')) \<Longrightarrow> r_done r'"
  by (auto simp: randomAlbumIter_Next_def Let_def
      split: if_splits option.splits prod.splits control.splits dest: fillLoop_exit)

lemma randomAlbumIter_done_calls:
  "r_done r \<Longrightarrow> calls randomAlbumIter_Next n r = Some (replicate n None, r)"
  by (induction n) (auto simp: randomAlbumIter_Next_def)

text \<open>
  The random album iterator returns \<^verbatim>\<open>nil\<close> only when it is done, and a done iterator
  returns \<^verbatim>\<open>nil\<close> at once: for it, exhaustion is permanent, in any state and with any
  fetch functions. The same holds for the generic iterator once \<open>b_done\<close> is set
  (\<open>baseIter_done_calls\<close>).
\<close>

lemma randomAlbumIter_exhaustion_is_permanent:
  "randomAlbumIter_Next q = Some (Return (None, q')) \<Longrightarrow>
     calls randomAlbumIter_Next n q' = Some (replicate n None, q')"
  using randomAlbumIter_Next_nil_done randomAlbumIter_done_calls by blast

text \<open>
  Claim C1 says that, for every iterator and every sequence of fetcher responses, once
  \<open>Next\<close> has returned the end-marker \<^verbatim>\<open>nil\<close>, every later call returns it too. The
  generic iterator does not keep this when a page holds a \<^verbatim>\<open>nil\<close> element. Here a track
  iterator (its filter is \<open>nilFilter\<close>, so nothing is filtered) gets the page
  \<open>[nil, a, b]\<close> and then an empty page: the first call fetches the page and returns its
  first element, \<^verbatim>\<open>nil\<close>, without setting \<^verbatim>\<open>done\<close>; the second and the third call return
  \<open>a\<close> and \<open>b\<close>; the fourth call returns \<^verbatim>\<open>nil\<close> again, now with \<^verbatim>\<open>done\<close> set. The first
  call has spawned the prefetch callback on each element of the page, the \<^verbatim>\<open>nil\<close> one
  included. The same iterator without a callback (\<^verbatim>\<open>prefetchCB == nil\<close>, the case that
  \<^verbatim>\<open>Next\<close> tests for) returns the same four results and spawns nothing.
\<close>

theorem C1_nil_item_then_items:
  "map_option fst
     (calls baseIter_Next 4 (NewTrackIterator (scripted [([None, Some a, Some b], None)])))
     = Some [None, Some a, Some b, None] \<and>
   map_option (\<lambda>(outs, r). (b_done r, b_spawned r))
     (calls baseIter_Next 1 (NewTrackIterator (scripted [([None, Some a, Some b], None)])))
     = Some (False, [None, Some a, Some b]) \<and>
   map_option (\<lambda>(outs, r). b_done r)
     (calls baseIter_Next 4 (NewTrackIterator (scripted [([None, Some a, Some b], None)])))
     = Some True \<and>
   map_option (\<lambda>(outs, r). (outs, b_spawned r))
     (calls baseIter_Next 4
        ((NewTrackIterator (scripted [([None, Some a, Some b], None)]))\<lparr>b_prefetchCB := False\<rparr>))
     = Some ([None, Some a, Some b, None], [])"
  by (simp add: NewTrackIterator_def base_run_simps)

section \<open>Filter translation\<close>

text \<open>
  Claim C9. Let \<open>flt\<close> be a filter of the store with options \<open>opts\<close>. If \<open>opts\<close> has
  \<open>MinYear = 2000\<close> and \<open>MaxYear = 0\<close>, then \<open>jfFilterFromFilter\<close> returns a native filter
  with the year range \<open>(2000, currentYear)\<close> and a modified filter, another object than
  \<open>flt\<close>, whose \<open>MinYear\<close> and \<open>MaxYear\<close> are both \<open>0\<close>, and afterwards \<open>flt\<close> and every other
  filter of the old store still have the options they had (so \<open>MinYear\<close> of \<open>flt\<close> is still
  \<open>2000\<close>). If instead \<open>MaxYear > 0\<close> and \<open>MinYear = 0\<close>, the same holds with the year range
  \<open>(1900, MaxYear opts)\<close>.
\<close>

theorem C9_jfFilterFromFilter_years:
  assumes "Options h flt = Some opts"
  shows "(MinYear opts = 2000 \<and> MaxYear opts = 0 \<longrightarrow>
           (\<exists>jfFilt modifiedFilter h' opts'.
              jfFilterFromFilter currentYear h flt = Return ((jfFilt, modifiedFilter), h') \<and>
              YearRange jfFilt = (2000, currentYear) \<and>
              modifiedFilter \<noteq> flt \<and>
              Options h' modifiedFilter = Some opts' \<and> MinYear opts' = 0 \<and> MaxYear opts' = 0 \<and>
              Options h' flt = Some opts \<and>
              (\<forall>g. Options h g \<noteq> None \<longrightarrow> Options h' g = Options h g))) \<and>
         (MaxYear opts > 0 \<and> MinYear opts = 0 \<longrightarrow>
           (\<exists>jfFilt modifiedFilter h' opts'.
              jfFilterFromFilter currentYear h flt = Return ((jfFilt, modifiedFilter), h') \<and>
              YearRange jfFilt = (1900, MaxYear opts) \<and>
              modifiedFilter \<noteq> flt \<and>
              Options h' modifiedFilter = Some opts' \<and> MinYear opts' = 0 \<and> MaxYear opts' = 0 \<and>
              Options h' flt = Some opts \<and>
              (\<forall>g. Options h g \<noteq> None \<longrightarrow> Options h' g = Options h g)))"
  using assms
  by (auto simp: jfFilterFromFilter_def Clone_def Options_def SetOptions_def pushGenres_def
      pushYears_def pushFavorite_def zero_Filter_def nth_append split: if_splits)

theorem C9_jfFilterFromFilter_years_witness:
  "(\<exists>jfFilt modifiedFilter h' opts'.
      jfFilterFromFilter 2026
        [\<lparr>ExcludeUnfavorited = False, MinYear = 2000, MaxYear = 0, Genres = [''Jazz'']\<rparr>,
         \<lparr>ExcludeUnfavorited = True, MinYear = 0, MaxYear = 1985, Genres = []\<rparr>] 0
        = Return ((jfFilt, modifiedFilter), h') \<and>
      YearRange jfFilt = (2000, 2026) \<and>
      Options h' modifiedFilter = Some opts' \<and> MinYear opts' = 0 \<and> MaxYear opts' = 0 \<and>
      map_option MinYear (Options h' 0) = Some 2000) \<and>
   (\<exists>jfFilt modifiedFilter h' opts'.
      jfFilterFromFilter 2026
        [\<lparr>ExcludeUnfavorited = False, MinYear = 2000, MaxYear = 0, Genres = [''Jazz'']\<rparr>,
         \<lparr>ExcludeUnfavorited = True, MinYear = 0, MaxYear = 1985, Genres = []\<rparr>] 1
        = Return ((jfFilt, modifiedFilter), h') \<and>
      YearRange jfFilt = (1900, 1985) \<and>
      Options h' modifiedFilter = Some opts' \<and> MinYear opts' = 0 \<and> MaxYear opts' = 0 \<and>
      map_option MaxYear (Options h' 1) = Some 1985)"
proof -
  let ?o0 = "\<lparr>ExcludeUnfavorited = False, MinYear = 2000, MaxYear = 0, Genres = [''Jazz'']\<rparr>"
  let ?o1 = "\<lparr>ExcludeUnfavorited = True, MinYear = 0, MaxYear = 1985, Genres = []\<rparr>"
  have h0: "Options [?o0, ?o1] 0 = Some ?o0" and h1: "Options [?o0, ?o1] 1 = Some ?o1"
    by (simp_all add: Options_def)
  from C9_jfFilterFromFilter_years[OF h0, of 2026] have a: "\<exists>jfFilt modifiedFilter h' opts'.
      jfFilterFromFilter 2026 [?o0, ?o1] 0 = Return ((jfFilt, modifiedFilter), h') \<and>
      YearRange jfFilt = (2000, 2026) \<and>
      Options h' modifiedFilter = Some opts' \<and> MinYear opts' = 0 \<and> MaxYear opts' = 0 \<and>
      map_option MinYear (Options h' 0) = Some 2000"
    by auto
  from C9_jfFilterFromFilter_years[OF h1, of 2026] have b: "\<exists>jfFilt modifiedFilter h' opts'.
      jfFilterFromFilter 2026 [?o0, ?o1] 1 = Return ((jfFilt, modifiedFilter), h') \<and>
      YearRange jfFilt = (1900, 1985) \<and>
      Options h' modifiedFilter = Some opts' \<and> MinYear opts' = 0 \<and> MaxYear opts' = 0 \<and>
      map_option MaxYear (Options h' 1) = Some 1985"
    by auto
  from a b show ?thesis by blast
qed

section \<open>The rounds of the random album iterator\<close>

lemma appendPrefetched_fields [simp]:
  "r_done (appendPrefetched r a) = r_done r"
  "r_phaseTwo (appendPrefetched r a) = r_phaseTwo r"
  "r_log (appendPrefetched r a) = r_log r"
  "r_offset (appendPrefetched r a) = r_offset r"
  "r_prefetchedPos (appendPrefetched r a) = r_prefetchedPos r"
  "r_filter (appendPrefetched r a) = r_filter r"
  "r_prefetchCB (appendPrefetched r a) = r_prefetchCB r"
  "r_albumIDSet (appendPrefetched r a) = r_albumIDSet r"
  "r_deterministicFetcher (appendPrefetched r a) = r_deterministicFetcher r"
  "r_ramdomFetcher (appendPrefetched r a) = r_ramdomFetcher r"
  "r_prefetched (appendPrefetched r a) = r_prefetched r @ [a]"
  by (simp_all add: appendPrefetched_def)

lemma phaseOneScan_fields:
  "phaseOneScan r h albums = (r', h') \<Longrightarrow>
     r_done r' = r_done r \<and> r_phaseTwo r' = r_phaseTwo r \<and> r_log r' = r_log r \<and>
     r_offset r' = r_offset r \<and> r_prefetchedPos r' = r_prefetchedPos r \<and>
     r_filter r' = r_filter r \<and> r_prefetchCB r' = r_prefetchCB r \<and>
     r_deterministicFetcher r' = r_deterministicFetcher r \<and>
     r_ramdomFetcher r' = r_ramdomFetcher r"
  by (induction albums arbitrary: r h) (auto simp: Let_def split: if_splits)

lemma phaseTwoScan_fields:
  "r_done (phaseTwoScan r albums) = r_done r \<and>
   r_phaseTwo (phaseTwoScan r albums) = r_phaseTwo r \<and>
   r_log (phaseTwoScan r albums) = r_log r \<and>
   r_offset (phaseTwoScan r albums) = r_offset r \<and>
   r_prefetchedPos (phaseTwoScan r albums) = r_prefetchedPos r \<and>
   r_filter (phaseTwoScan r albums) = r_filter r \<and>
   r_prefetchCB (phaseTwoScan r albums) = r_prefetchCB r \<and>
   r_deterministicFetcher (phaseTwoScan r albums) = r_deterministicFetcher r \<and>
   r_ramdomFetcher (phaseTwoScan r albums) = r_ramdomFetcher r"
  by (induction albums arbitrary: r) auto

lemma phaseOneScan_idset:
  "dom (r_albumIDSet (fst (phaseOneScan r h albums))) =
     dom (r_albumIDSet r) \<union> Album.ID ` set albums"
  by (induction albums arbitrary: r h) (auto simp: Let_def)

lemma phaseOneScan_hitCount:
  "snd (phaseOneScan r h albums) = h + card (Album.ID ` set albums - dom (r_albumIDSet r))"
proof (induction albums arbitrary: r h)
  case Nil
  then show ?case by simp
next
  case (Cons a albums)
  let ?D = "dom (r_albumIDSet r)" and ?A = "Album.ID ` set albums"
  show ?case
  proof (cases "r_albumIDSet r (Album.ID a) = None")
    case True
    then have notin: "Album.ID a \<notin> ?D" by (simp add: domIff)
    have eq: "insert (Album.ID a) ?A - ?D = insert (Album.ID a) (?A - insert (Album.ID a) ?D)"
      using notin by auto
    have "card (insert (Album.ID a) ?A - ?D) = Suc (card (?A - insert (Album.ID a) ?D))"
      unfolding eq by (rule card_insert_disjoint) auto
    with True show ?thesis by (simp add: Let_def Cons.IH)
  next
    case False
    then have "Album.ID a \<in> ?D" by (simp add: domIff)
    then have eq: "insert (Album.ID a) ?A - ?D = ?A - ?D" by auto
    from False obtain y where "r_albumIDSet r (Album.ID a) = Some y" by blast
    then have "phaseOneScan r h (a # albums) = phaseOneScan r h albums" by simp
    then show ?thesis by (simp only: Cons.IH list.set image_insert eq)
  qed
qed

lemma fillStep_two_end:
  assumes "r_phaseTwo r" and "resp = r_deterministicFetcher r (length (r_log r)) (r_offset r) 25"
    and "snd resp \<noteq> None \<or> fst resp = []"
  shows "fillStep r =
     (ReturnNil, r\<lparr>r_log := r_log r @ [(DeterministicFetcher, r_offset r, 25, resp)],
                   r_done := True, r_albumIDSet := Map.empty\<rparr>)"
  using assms by (auto simp: fillStep_def Let_def)

lemma fillStep_two_page:
  assumes "r_phaseTwo r" and "resp = r_deterministicFetcher r (length (r_log r)) (r_offset r) 25"
    and "snd resp = None" and "fst resp \<noteq> []"
  shows "fillStep r =
     (Continue,
      phaseTwoScan (r\<lparr>r_log := r_log r @ [(DeterministicFetcher, r_offset r, 25, resp)],
                      r_offset := r_offset r + length (fst resp)\<rparr>) (fst resp))"
  using assms by (simp add: fillStep_def Let_def)

lemma fillStep_one_err:
  assumes "\<not> r_phaseTwo r" and "resp = r_ramdomFetcher r (length (r_log r)) 0 25"
    and "snd resp \<noteq> None"
  shows "fillStep r =
     (ReturnNil, r\<lparr>r_log := r_log r @ [(RandomFetcher, 0, 25, resp)],
                   r_done := True, r_albumIDSet := Map.empty\<rparr>)"
  using assms by (auto simp: fillStep_def Let_def)

lemma fillStep_one_batch:
  assumes "\<not> r_phaseTwo r" and "resp = r_ramdomFetcher r (length (r_log r)) 0 25"
    and "snd resp = None"
    and "phaseOneScan (r\<lparr>r_log := r_log r @ [(RandomFetcher, 0, 25, resp)]\<rparr>) 0 (fst resp)
           = (r2, hitCount)"
  shows "fillStep r =
     (Continue, if real hitCount / 25 < 0.3 then r2\<lparr>r_phaseTwo := True\<rparr> else r2)"
  using assms by (simp add: fillStep_def Let_def)

lemma fillStep_cases [case_names two_end two_page one_err one_batch]:
  assumes "\<And>resp. \<lbrakk>r_phaseTwo r;
              resp = r_deterministicFetcher r (length (r_log r)) (r_offset r) 25;
              snd resp \<noteq> None \<or> fst resp = [];
              fillStep r =
                (ReturnNil, r\<lparr>r_log := r_log r @ [(DeterministicFetcher, r_offset r, 25, resp)],
                              r_done := True, r_albumIDSet := Map.empty\<rparr>)\<rbrakk> \<Longrightarrow> P"
    and "\<And>resp. \<lbrakk>r_phaseTwo r;
              resp = r_deterministicFetcher r (length (r_log r)) (r_offset r) 25;
              snd resp = None; fst resp \<noteq> [];
              fillStep r =
                (Continue,
                 phaseTwoScan
                   (r\<lparr>r_log := r_log r @ [(DeterministicFetcher, r_offset r, 25, resp)],
                      r_offset := r_offset r + length (fst resp)\<rparr>) (fst resp))\<rbrakk> \<Longrightarrow> P"
    and "\<And>resp. \<lbrakk>\<not> r_phaseTwo r; resp = r_ramdomFetcher r (length (r_log r)) 0 25;
              snd resp \<noteq> None;
              fillStep r =
                (ReturnNil, r\<lparr>r_log := r_log r @ [(RandomFetcher, 0, 25, resp)],
                              r_done := True, r_albumIDSet := Map.empty\<rparr>)\<rbrakk> \<Longrightarrow> P"
    and "\<And>resp r2 hitCount. \<lbrakk>\<not> r_phaseTwo r;
              resp = r_ramdomFetcher r (length (r_log r)) 0 25; snd resp = None;
              phaseOneScan (r\<lparr>r_log := r_log r @ [(RandomFetcher, 0, 25, resp)]\<rparr>) 0 (fst resp)
                = (r2, hitCount);
              fillStep r =
                (Continue, if real hitCount / 25 < 0.3 then r2\<lparr>r_phaseTwo := True\<rparr> else r2)\<rbrakk>
            \<Longrightarrow> P"
  shows P
proof (cases "r_phaseTwo r")
  case True
  let ?resp = "r_deterministicFetcher r (length (r_log r)) (r_offset r) 25"
  show ?thesis
  proof (cases "snd ?resp \<noteq> None \<or> fst ?resp = []")
    case True
    from assms(1)[OF \<open>r_phaseTwo r\<close> refl True fillStep_two_end[OF \<open>r_phaseTwo r\<close> refl True]]
    show ?thesis .
  next
    case False
    then have a: "snd ?resp = None" and b: "fst ?resp \<noteq> []" by auto
    from assms(2)[OF True refl a b fillStep_two_page[OF True refl a b]] show ?thesis .
  qed
next
  case False
  let ?resp = "r_ramdomFetcher r (length (r_log r)) 0 25"
  show ?thesis
  proof (cases "snd ?resp \<noteq> None")
    case True
    from assms(3)[OF False refl True fillStep_one_err[OF False refl True]] show ?thesis .
  next
    case nerr: False
    then have a: "snd ?resp = None" by simp
    obtain r2 h where sc:
      "phaseOneScan (r\<lparr>r_log := r_log r @ [(RandomFetcher, 0, 25, ?resp)]\<rparr>) 0 (fst ?resp)
         = (r2, h)"
      by (cases "phaseOneScan (r\<lparr>r_log := r_log r @ [(RandomFetcher, 0, 25, ?resp)]\<rparr>) 0
                   (fst ?resp)")
    from assms(4)[OF False refl a sc fillStep_one_batch[OF False refl a sc]] show ?thesis .
  qed
qed

lemma fillStep_not_Leave: "fillStep r = (d, r') \<Longrightarrow> d \<noteq> Leave"
  by (cases r rule: fillStep_cases) (auto split: if_splits)

lemma fillStep_done:
  assumes "fillStep r = (d, r')" "\<not> r_done r"
  shows "r_done r' = (d = ReturnNil)"
proof (cases r rule: fillStep_cases)
  case (two_end resp)
  with assms show ?thesis by auto
next
  case (two_page resp)
  with assms show ?thesis by (auto simp: phaseTwoScan_fields)
next
  case (one_err resp)
  with assms show ?thesis by auto
next
  case (one_batch resp r2 hitCount)
  from phaseOneScan_fields[OF one_batch(4)] have "r_done r2 = r_done r" by simp
  with one_batch(5) assms show ?thesis by (auto split: if_splits)
qed

lemma Next_at_loop_head:
  assumes "\<not> r_done r" "r_prefetched r = []" "fillStep r = (Continue, r1)"
  shows "randomAlbumIter_Next r = randomAlbumIter_Next r1"
proof -
  from fillStep_done[OF assms(3) assms(1)] have nd: "\<not> r_done r1" by simp
  have "fillLoop r = fillLoop r1"
    by (subst fillLoop.simps) (simp add: assms)
  with assms(1) nd show ?thesis by (simp add: randomAlbumIter_Next_def)
qed

lemma Next_at_loop_head_nil:
  assumes "\<not> r_done r" "r_prefetched r = []" "fillStep r = (ReturnNil, r1)"
  shows "randomAlbumIter_Next r = Some (Return (None, r1))"
proof -
  have "fillLoop r = Some (ReturnNil, r1)"
    by (subst fillLoop.simps) (simp add: assms)
  with assms(1) show ?thesis by (simp add: randomAlbumIter_Next_def)
qed

section \<open>Phase two is permanent\<close>

lemma fillStep_phaseTwo:
  assumes "r_phaseTwo s" "fillStep s = (d, s')"
  shows "r_phaseTwo s' \<and> (\<exists>e. r_log s' = r_log s @ [e] \<and> fst e = DeterministicFetcher)"
proof (cases s rule: fillStep_cases)
  case (two_end resp)
  with assms show ?thesis by auto
next
  case (two_page resp)
  with assms show ?thesis by (auto simp: phaseTwoScan_fields)
next
  case (one_err resp)
  with assms show ?thesis by simp
next
  case (one_batch resp r2 hitCount)
  with assms show ?thesis by simp
qed

lemma fillLoop_phaseTwo:
  assumes "fillLoop r = Some (c, r')" "r_phaseTwo r"
  shows "r_phaseTwo r' \<and>
         (\<exists>L. r_log r' = r_log r @ L \<and> (\<forall>e\<in>set L. fst e = DeterministicFetcher))"
proof (rule fillLoop_rule[OF assms(1), where
      I = "\<lambda>s. r_phaseTwo s \<and>
         (\<exists>L. r_log s = r_log r @ L \<and> (\<forall>e\<in>set L. fst e = DeterministicFetcher))"
      and Q = "\<lambda>_ s. r_phaseTwo s \<and>
         (\<exists>L. r_log s = r_log r @ L \<and> (\<forall>e\<in>set L. fst e = DeterministicFetcher))"],
    goal_cases)
  case 1
  from assms(2) show ?case by simp
next
  case (2 s d s')
  from 2(1) obtain L where L: "r_log s = r_log r @ L" "\<forall>e\<in>set L. fst e = DeterministicFetcher"
    by blast
  from fillStep_phaseTwo[OF _ 2(3)] 2(1) obtain e where
    e: "r_phaseTwo s'" "r_log s' = r_log s @ [e]" "fst e = DeterministicFetcher" by blast
  from L e have "r_log s' = r_log r @ (L @ [e]) \<and> (\<forall>x\<in>set (L @ [e]). fst x = DeterministicFetcher)"
    by simp
  with e(1) show ?case by blast
next
  case (3 s)
  then show ?case by simp
qed

lemma Next_phaseTwo:
  assumes "randomAlbumIter_Next r = Some (Return (x, r'))" "r_phaseTwo r"
  shows "r_phaseTwo r' \<and>
         (\<exists>L. r_log r' = r_log r @ L \<and> (\<forall>e\<in>set L. fst e = DeterministicFetcher))"
proof (cases "r_done r")
  case True
  with assms show ?thesis by (simp add: randomAlbumIter_Next_def)
next
  case False
  with assms(1) obtain c s where loop: "fillLoop r = Some (c, s)"
    by (auto simp: randomAlbumIter_Next_def split: option.splits)
  from False assms(1) loop have "r_phaseTwo r' = r_phaseTwo s \<and> r_log r' = r_log s"
    by (auto simp: randomAlbumIter_Next_def Let_def split: control.splits if_splits)
  with fillLoop_phaseTwo[OF loop assms(2)] show ?thesis by simp
qed

lemma calls_phaseTwo:
  assumes "calls randomAlbumIter_Next n r = Some (outs, r')" "r_phaseTwo r"
  shows "r_phaseTwo r' \<and>
         (\<exists>L. r_log r' = r_log r @ L \<and> (\<forall>e\<in>set L. fst e = DeterministicFetcher))"
proof -
  let ?I = "\<lambda>(acc :: Album option list) s. r_phaseTwo s \<and>
         (\<exists>L. r_log s = r_log r @ L \<and> (\<forall>e\<in>set L. fst e = DeterministicFetcher))"
  have "?I ([] @ outs) r'"
  proof (rule calls_rule[OF assms(1), where I = ?I], goal_cases)
    case 1
    from assms(2) show ?case by simp
  next
    case (2 a s x s')
    from 2(1) obtain L where L: "r_log s = r_log r @ L" "\<forall>e\<in>set L. fst e = DeterministicFetcher"
      by blast
    from Next_phaseTwo[OF 2(2)] 2(1) obtain L' where
      L': "r_phaseTwo s'" "r_log s' = r_log s @ L'" "\<forall>e\<in>set L'. fst e = DeterministicFetcher"
      by blast
    from L L' have "r_log s' = r_log r @ (L @ L') \<and> (\<forall>e\<in>set (L @ L'). fst e = DeterministicFetcher)"
      by auto
    with L'(1) show ?case by blast
  qed
  then show ?thesis by simp
qed

text \<open>Unfolding the random album iterator on a concrete iterator.\<close>

lemmas run_simps = randomAlbumIter_Next_def fillLoop.simps fillStep_def Let_def
  NewRandomAlbumIter_def scripted_def appendPrefetched_def nilFilter_def exampleAlbum_def
  numeral_eq_Suc

text \<open>
  Claim C3. Let the random album iterator be at the head of its loop (not done, buffer
  empty) in phase one, let the random fetcher answer without error, and let \<open>hitCount\<close>,
  the number of album IDs of the batch that are not yet in \<open>albumIDSet\<close>, satisfy
  \<open>hitCount / 25 < 0.3\<close>. Then this round of the loop logs one random fetch and sets
  \<open>phaseTwo\<close>, and however many calls of \<open>Next\<close> follow (the one in progress
  included), \<open>phaseTwo\<close> stays set and every fetch logged after that random fetch is
  a call of the deterministic fetcher.
\<close>

theorem C3_phase_two_is_permanent:
  assumes "\<not> r_done r" and "r_prefetched r = []" and "\<not> r_phaseTwo r"
    and "resp = r_ramdomFetcher r (length (r_log r)) 0 25" and "snd resp = None"
    and "hitCount = card (Album.ID ` set (fst resp) - dom (r_albumIDSet r))"
    and "real hitCount / 25 < 0.3"
  shows "\<exists>r1. fillStep r = (Continue, r1) \<and> r_phaseTwo r1 \<and>
           r_log r1 = r_log r @ [(RandomFetcher, 0, 25, resp)] \<and>
           (\<forall>n outs r'. calls randomAlbumIter_Next (Suc n) r = Some (outs, r') \<longrightarrow>
              r_phaseTwo r' \<and>
              (\<exists>L. r_log r' = r_log r1 @ L \<and> (\<forall>e\<in>set L. fst e = DeterministicFetcher)))"
proof -
  let ?r1 = "r\<lparr>r_log := r_log r @ [(RandomFetcher, 0, 25, resp)]\<rparr>"
  let ?sc = "phaseOneScan ?r1 0 (fst resp)"
  have hc: "snd ?sc = hitCount"
    by (simp add: phaseOneScan_hitCount assms(6))
  obtain r2 h where sc: "?sc = (r2, h)" by (cases ?sc)
  with hc have h: "h = hitCount" by simp
  have step: "fillStep r = (Continue, r2\<lparr>r_phaseTwo := True\<rparr>)"
    using assms(3,5,7) sc h
    by (simp add: fillStep_def Let_def assms(4)[symmetric])
  from phaseOneScan_fields[OF sc] have log: "r_log r2 = r_log r @ [(RandomFetcher, 0, 25, resp)]"
    by simp
  have nx: "randomAlbumIter_Next r = randomAlbumIter_Next (r2\<lparr>r_phaseTwo := True\<rparr>)"
    by (rule Next_at_loop_head[OF assms(1,2) step])
  have "calls randomAlbumIter_Next (Suc n) r = calls randomAlbumIter_Next (Suc n) (r2\<lparr>r_phaseTwo := True\<rparr>)" for n
    by (simp add: nx)
  then show ?thesis
    using step log calls_phaseTwo[of _ "r2\<lparr>r_phaseTwo := True\<rparr>"]
    by (intro exI[of _ "r2\<lparr>r_phaseTwo := True\<rparr>"]) (simp del: calls.simps)
qed

theorem C3_phase_two_is_permanent_witness:
  "\<exists>outs r' L.
     calls randomAlbumIter_Next 4
       (NewRandomAlbumIter
          (scripted [([], None), ([exampleAlbum ''a'', exampleAlbum ''c''], None)])
          (scripted [([exampleAlbum ''a'', exampleAlbum ''b''], None)])
          nilFilter True) = Some (outs, r') \<and>
     outs = [Some (exampleAlbum ''a''), Some (exampleAlbum ''b''), Some (exampleAlbum ''c''), None] \<and>
     r_phaseTwo r' \<and>
     r_log r' = (RandomFetcher, 0, 25, ([exampleAlbum ''a'', exampleAlbum ''b''], None)) # L \<and>
     list_all (\<lambda>e. fst e = DeterministicFetcher) L"
proof -
  define r where "r = NewRandomAlbumIter
          (scripted [([], None), ([exampleAlbum ''a'', exampleAlbum ''c''], None)])
          (scripted [([exampleAlbum ''a'', exampleAlbum ''b''], None)])
          nilFilter True"
  define resp where "resp = ([exampleAlbum ''a'', exampleAlbum ''b''], None :: error option)"
  have resp: "resp = r_ramdomFetcher r (length (r_log r)) 0 25"
    by (simp add: r_def resp_def NewRandomAlbumIter_def scripted_def)
  have hc: "(2::nat) = card (Album.ID ` set (fst resp) - dom (r_albumIDSet r))"
    by (simp add: r_def resp_def NewRandomAlbumIter_def exampleAlbum_def)
  have h1: "\<not> r_done r" and h2: "r_prefetched r = []" and h3: "\<not> r_phaseTwo r"
    and h5: "snd resp = None" and h7: "real 2 / 25 < 0.3" and h8: "r_log r = []"
    by (simp_all add: r_def resp_def NewRandomAlbumIter_def)
  from C3_phase_two_is_permanent[OF h1 h2 h3 resp h5 hc h7]
  obtain r1 :: randomAlbumIter where r1: "r_log r1 = r_log r @ [(RandomFetcher, 0, 25, resp)]"
    and later: "\<forall>n outs r'. calls randomAlbumIter_Next (Suc n) r = Some (outs, r') \<longrightarrow>
              r_phaseTwo r' \<and>
              (\<exists>L. r_log r' = r_log r1 @ L \<and> (\<forall>e\<in>set L. fst e = DeterministicFetcher))"
    by blast
  define outs where
    "outs = [Some (exampleAlbum ''a''), Some (exampleAlbum ''b''), Some (exampleAlbum ''c''), None]"
  obtain r' where run: "calls randomAlbumIter_Next (Suc 3) r = Some (outs, r')"
    by (simp add: r_def outs_def run_simps)
  from later run have "r_phaseTwo r' \<and>
              (\<exists>L. r_log r' = r_log r1 @ L \<and> (\<forall>e\<in>set L. fst e = DeterministicFetcher))"
    by blast
  with r1 h8 obtain L where L: "r_phaseTwo r'"
    "r_log r' = (RandomFetcher, 0, 25, resp) # L" "list_all (\<lambda>e. fst e = DeterministicFetcher) L"
    by (auto simp: list_all_iff)
  have "calls randomAlbumIter_Next 4 r = Some (outs, r')"
    using run by (simp only: numeral_eq_Suc pred_numeral_simps BitM.simps)
  with L show ?thesis unfolding r_def outs_def resp_def by blast
qed

section \<open>Transport errors in the random album iterator\<close>

text \<open>
  Claim C2, as amended. Let the random album iterator be at the head of its loop (not
  done, buffer empty). In phase one, a transport error of the random fetcher makes \<open>Next\<close>
  return the end-marker after that single fetch, with the iterator done for ever. In
  phase two, a transport error of the deterministic fetcher is treated as an empty page,
  and an empty page is terminal: on an error or an empty page \<open>Next\<close> returns the
  end-marker after that single fetch, with the iterator done for ever, and only then;
  on a non-empty page without error the round ends with the iterator not done and the
  call goes on.
\<close>

theorem C2_fetch_errors:
  assumes "\<not> r_done r" and "r_prefetched r = []"
  shows "(\<not> r_phaseTwo r \<and> snd (r_ramdomFetcher r (length (r_log r)) 0 25) \<noteq> None \<longrightarrow>
            (\<exists>r'. randomAlbumIter_Next r = Some (Return (None, r')) \<and> r_done r' \<and>
                  length (r_log r') = Suc (length (r_log r)) \<and>
                  (\<forall>n. calls randomAlbumIter_Next n r' = Some (replicate n None, r')))) \<and>
         (r_phaseTwo r \<longrightarrow>
            (let resp = r_deterministicFetcher r (length (r_log r)) (r_offset r) 25
             in if snd resp \<noteq> None \<or> fst resp = []
                then (\<exists>r'. randomAlbumIter_Next r = Some (Return (None, r')) \<and> r_done r' \<and>
                        length (r_log r') = Suc (length (r_log r)) \<and>
                        (\<forall>n. calls randomAlbumIter_Next n r' = Some (replicate n None, r')))
                else (\<exists>r1. fillStep r = (Continue, r1) \<and> \<not> r_done r1 \<and>
                        randomAlbumIter_Next r = randomAlbumIter_Next r1)))"
proof (cases r rule: fillStep_cases)
  case (two_end resp)
  let ?r' = "r\<lparr>r_log := r_log r @ [(DeterministicFetcher, r_offset r, 25, resp)],
                r_done := True, r_albumIDSet := Map.empty\<rparr>"
  from Next_at_loop_head_nil[OF assms two_end(4)]
  have "randomAlbumIter_Next r = Some (Return (None, ?r'))" .
  moreover have "r_done ?r'" "length (r_log ?r') = Suc (length (r_log r))" by simp_all
  moreover have "\<forall>n. calls randomAlbumIter_Next n ?r' = Some (replicate n None, ?r')"
    using randomAlbumIter_done_calls[of ?r'] by simp
  ultimately have "\<exists>r'. randomAlbumIter_Next r = Some (Return (None, r')) \<and> r_done r' \<and>
                        length (r_log r') = Suc (length (r_log r)) \<and>
                        (\<forall>n. calls randomAlbumIter_Next n r' = Some (replicate n None, r'))"
    by blast
  with two_end(1,2,3) show ?thesis by (simp add: Let_def)
next
  case (two_page resp)
  let ?r1 = "phaseTwoScan
                   (r\<lparr>r_log := r_log r @ [(DeterministicFetcher, r_offset r, 25, resp)],
                      r_offset := r_offset r + length (fst resp)\<rparr>) (fst resp)"
  from fillStep_done[OF two_page(5) assms(1)] have "\<not> r_done ?r1" by simp
  moreover from Next_at_loop_head[OF assms two_page(5)]
  have "randomAlbumIter_Next r = randomAlbumIter_Next ?r1" .
  ultimately have "\<exists>r1. fillStep r = (Continue, r1) \<and> \<not> r_done r1 \<and>
                        randomAlbumIter_Next r = randomAlbumIter_Next r1"
    using two_page(5) by blast
  with two_page(1,2,3,4) show ?thesis by (simp add: Let_def)
next
  case (one_err resp)
  let ?r' = "r\<lparr>r_log := r_log r @ [(RandomFetcher, 0, 25, resp)],
                r_done := True, r_albumIDSet := Map.empty\<rparr>"
  from Next_at_loop_head_nil[OF assms one_err(4)]
  have "randomAlbumIter_Next r = Some (Return (None, ?r'))" .
  moreover have "r_done ?r'" "length (r_log ?r') = Suc (length (r_log r))" by simp_all
  moreover have "\<forall>n. calls randomAlbumIter_Next n ?r' = Some (replicate n None, ?r')"
    using randomAlbumIter_done_calls[of ?r'] by simp
  ultimately have "\<exists>r'. randomAlbumIter_Next r = Some (Return (None, r')) \<and> r_done r' \<and>
                        length (r_log r') = Suc (length (r_log r)) \<and>
                        (\<forall>n. calls randomAlbumIter_Next n r' = Some (replicate n None, r'))"
    by blast
  with one_err(1) show ?thesis by simp
next
  case (one_batch resp r2 hitCount)
  then show ?thesis by simp
qed

theorem C2_fetch_errors_witness:
  "(\<exists>r'. randomAlbumIter_Next
            (NewRandomAlbumIter (scripted []) (scripted [([], Some ''timeout'')]) nilFilter True)
          = Some (Return (None, r')) \<and> r_done r' \<and> length (r_log r') = 1 \<and>
          calls randomAlbumIter_Next 2 r' = Some ([None, None], r')) \<and>
   (\<exists>r'. randomAlbumIter_Next
            ((NewRandomAlbumIter (scripted [([], Some ''timeout'')]) (scripted []) nilFilter True)
               \<lparr>r_phaseTwo := True\<rparr>)
          = Some (Return (None, r')) \<and> r_done r' \<and> length (r_log r') = 1 \<and>
          calls randomAlbumIter_Next 2 r' = Some ([None, None], r')) \<and>
   (\<exists>r1. fillStep
            ((NewRandomAlbumIter (scripted [([exampleAlbum ''a''], None)]) (scripted [])
                nilFilter True) \<lparr>r_phaseTwo := True\<rparr>)
          = (Continue, r1) \<and> \<not> r_done r1)"
proof -
  define p where
    "p = NewRandomAlbumIter (scripted []) (scripted [([], Some ''timeout'')]) nilFilter True"
  define q where
    "q = (NewRandomAlbumIter (scripted [([], Some ''timeout'')]) (scripted []) nilFilter True)
           \<lparr>r_phaseTwo := True\<rparr>"
  define s where
    "s = (NewRandomAlbumIter (scripted [([exampleAlbum ''a''], None)]) (scripted [])
                nilFilter True) \<lparr>r_phaseTwo := True\<rparr>"
  have p: "\<not> r_done p" "r_prefetched p = []" "\<not> r_phaseTwo p"
    "snd (r_ramdomFetcher p (length (r_log p)) 0 25) \<noteq> None" "r_log p = []"
    by (simp_all add: p_def NewRandomAlbumIter_def scripted_def)
  have q: "\<not> r_done q" "r_prefetched q = []" "r_phaseTwo q" "r_log q = []"
    "snd (r_deterministicFetcher q (length (r_log q)) (r_offset q) 25) \<noteq> None"
    by (simp_all add: q_def NewRandomAlbumIter_def scripted_def)
  have s: "\<not> r_done s" "r_prefetched s = []" "r_phaseTwo s"
    "snd (r_deterministicFetcher s (length (r_log s)) (r_offset s) 25) = None"
    "fst (r_deterministicFetcher s (length (r_log s)) (r_offset s) 25) \<noteq> []"
    by (simp_all add: s_def NewRandomAlbumIter_def scripted_def)
  from C2_fetch_errors[OF p(1,2)] p(3,4,5)
  have a: "\<exists>r'. randomAlbumIter_Next p = Some (Return (None, r')) \<and> r_done r' \<and>
      length (r_log r') = 1 \<and> calls randomAlbumIter_Next 2 r' = Some ([None, None], r')"
    by (auto simp: numeral_2_eq_2 simp del: calls.simps)
  from C2_fetch_errors[OF q(1,2)] q(3,4,5)
  have b: "\<exists>r'. randomAlbumIter_Next q = Some (Return (None, r')) \<and> r_done r' \<and>
      length (r_log r') = 1 \<and> calls randomAlbumIter_Next 2 r' = Some ([None, None], r')"
    by (auto simp: numeral_2_eq_2 Let_def simp del: calls.simps)
  from C2_fetch_errors[OF s(1,2)] s(3,4,5)
  have c: "\<exists>r1. fillStep s = (Continue, r1) \<and> \<not> r_done r1"
    by (auto simp: Let_def)
  from a b c show ?thesis unfolding p_def q_def s_def by blast
qed

text \<open>
  The claim as first stated fails: it has a transport error in phase two not end the
  iteration by itself. Here the random batch of one new album switches to phase two and
  is handed out by the first call; in the second call the deterministic fetcher answers
  with a transport error (and even a page that is not empty), and the iterator is done:
  the second and third call return the end-marker.
\<close>

theorem C2_counterexample:
  "map_option fst
     (calls randomAlbumIter_Next 3
        (NewRandomAlbumIter
           (scripted [([], None), ([exampleAlbum ''b''], Some ''timeout'')])
           (scripted [([exampleAlbum ''a''], None)])
           nilFilter True))
     = Some [Some (exampleAlbum ''a''), None, None] \<and>
   map_option (\<lambda>(outs, r). (r_phaseTwo r, r_done r, r_log r))
     (calls randomAlbumIter_Next 3
        (NewRandomAlbumIter
           (scripted [([], None), ([exampleAlbum ''b''], Some ''timeout'')])
           (scripted [([exampleAlbum ''a''], None)])
           nilFilter True))
     = Some (True, True,
             [(RandomFetcher, 0, 25, ([exampleAlbum ''a''], None)),
              (DeterministicFetcher, 0, 25, ([exampleAlbum ''b''], Some ''timeout''))])"
  by (simp add: run_simps)

section \<open>No album is handed out twice\<close>

lemma phaseOneScan_scanInv:
  "scanInv S r \<Longrightarrow> scanInv S (fst (phaseOneScan r h albums))"
proof (induction albums arbitrary: r h)
  case Nil
  then show ?case by simp
next
  case (Cons a albums)
  show ?case
  proof (cases "r_albumIDSet r (Album.ID a) = None")
    case True
    let ?r1 = "r\<lparr>r_albumIDSet := (r_albumIDSet r)(Album.ID a \<mapsto> True)\<rparr>"
    let ?r2 = "if Matches (r_filter ?r1) a then appendPrefetched ?r1 a else ?r1"
    from True have notin: "Album.ID a \<notin> dom (r_albumIDSet r)" by (simp add: domIff)
    with Cons.prems have "scanInv S ?r2"
      by (auto simp: scanInv_def)
    from Cons.IH[OF this, of "h + 1"] True show ?thesis by (simp add: Let_def)
  next
    case False
    then obtain y where "r_albumIDSet r (Album.ID a) = Some y" by blast
    then have "phaseOneScan r h (a # albums) = phaseOneScan r h albums" by simp
    with Cons.IH[OF Cons.prems, of h] show ?thesis by simp
  qed
qed

lemma phaseTwoScan_scanInv:
  "scanInv S r \<Longrightarrow> scanInv S (phaseTwoScan r albums)"
proof (induction albums arbitrary: r)
  case Nil
  then show ?case by simp
next
  case (Cons a albums)
  let ?r1 = "(appendPrefetched r a)\<lparr>r_albumIDSet := (r_albumIDSet r)(Album.ID a \<mapsto> True)\<rparr>"
  show ?case
  proof (cases "r_albumIDSet r (Album.ID a) = None \<and> Matches (r_filter r) a")
    case True
    then have notin: "Album.ID a \<notin> dom (r_albumIDSet r)" by (simp add: domIff)
    with Cons.prems have "scanInv S ?r1"
      by (auto simp: scanInv_def)
    from Cons.IH[OF this] True show ?thesis by simp
  next
    case False
    then have "phaseTwoScan r (a # albums) = phaseTwoScan r albums" by auto
    with Cons.IH[OF Cons.prems] show ?thesis by simp
  qed
qed

lemma scanInv_dedupInv:
  assumes "scanInv (set returned) s" "distinct returned" "r_prefetchedPos s = 0"
  shows "dedupInv returned s"
  using assms by (auto simp: scanInv_def dedupInv_def)

lemma dedupInv_scanInv:
  assumes "dedupInv returned s" "\<not> r_done s" "r_prefetched s = []"
  shows "scanInv (set returned) s \<and> r_prefetchedPos s = 0 \<and> distinct returned"
  using assms by (auto simp: scanInv_def dedupInv_def)

lemma scanInv_log_offset:
  "scanInv S (s\<lparr>r_log := L\<rparr>) = scanInv S s"
  "scanInv S (s\<lparr>r_log := L, r_offset := k\<rparr>) = scanInv S s"
  "scanInv S (s\<lparr>r_phaseTwo := b\<rparr>) = scanInv S s"
  by (simp_all add: scanInv_def)

lemma fillStep_dedupInv:
  assumes inv: "dedupInv returned s" and nd: "\<not> r_done s" and e: "r_prefetched s = []"
    and st: "fillStep s = (d, s')"
  shows "dedupInv returned s'"
proof -
  from dedupInv_scanInv[OF inv nd e]
  have sc: "scanInv (set returned) s" and pos: "r_prefetchedPos s = 0" and di: "distinct returned"
    by simp_all
  show ?thesis
  proof (cases s rule: fillStep_cases)
    case (two_end resp)
    with st di show ?thesis by (auto simp: dedupInv_def)
  next
    case (two_page resp)
    let ?s1 = "s\<lparr>r_log := r_log s @ [(DeterministicFetcher, r_offset s, 25, resp)],
                 r_offset := r_offset s + length (fst resp)\<rparr>"
    from sc have "scanInv (set returned) ?s1" by (simp add: scanInv_log_offset)
    from phaseTwoScan_scanInv[OF this] have "scanInv (set returned) (phaseTwoScan ?s1 (fst resp))" .
    moreover have "r_prefetchedPos (phaseTwoScan ?s1 (fst resp)) = 0"
      using pos by (simp add: phaseTwoScan_fields)
    ultimately have "dedupInv returned (phaseTwoScan ?s1 (fst resp))"
      using di by (intro scanInv_dedupInv)
    with two_page(5) st show ?thesis by simp
  next
    case (one_err resp)
    with st di show ?thesis by (auto simp: dedupInv_def)
  next
    case (one_batch resp r2 hitCount)
    let ?s1 = "s\<lparr>r_log := r_log s @ [(RandomFetcher, 0, 25, resp)]\<rparr>"
    from sc have "scanInv (set returned) ?s1" by (simp add: scanInv_log_offset)
    from phaseOneScan_scanInv[OF this, of 0 "fst resp"] one_batch(4)
    have a: "scanInv (set returned) r2" by simp
    from phaseOneScan_fields[OF one_batch(4)] pos have b: "r_prefetchedPos r2 = 0" by simp
    from a b di have "dedupInv returned r2" by (intro scanInv_dedupInv)
    moreover from a b di have "dedupInv returned (r2\<lparr>r_phaseTwo := True\<rparr>)"
      by (intro scanInv_dedupInv) (simp_all add: scanInv_log_offset)
    ultimately show ?thesis using one_batch(5) st by (auto split: if_splits)
  qed
qed

lemma fillLoop_dedupInv:
  assumes run: "fillLoop r = Some (c, r')" and inv: "dedupInv returned r" and nd: "\<not> r_done r"
  shows "dedupInv returned r' \<and> (c = Leave \<longrightarrow> \<not> r_done r' \<and> r_prefetched r' \<noteq> [])"
proof (rule fillLoop_rule[OF run, where I = "\<lambda>s. dedupInv returned s \<and> \<not> r_done s"
      and Q = "\<lambda>c s. dedupInv returned s \<and> (c = Leave \<longrightarrow> \<not> r_done s \<and> r_prefetched s \<noteq> [])"],
    goal_cases)
  case 1
  from inv nd show ?case by simp
next
  case (2 s d s')
  then have a: "dedupInv returned s" "\<not> r_done s" by simp_all
  from fillStep_dedupInv[OF a 2(2,3)] have "dedupInv returned s'" .
  moreover from fillStep_done[OF 2(3) a(2)] have "r_done s' = (d = ReturnNil)" .
  ultimately show ?case by simp
next
  case (3 s)
  then show ?case by simp
qed

lemma distinct_map_nth_notin_drop:
  assumes "distinct (map f xs)" "i < length xs"
  shows "f (xs ! i) \<notin> f ` set (drop (Suc i) xs)"
proof -
  from assms(2) have "drop i xs = xs ! i # drop (Suc i) xs" by (simp add: Cons_nth_drop_Suc)
  moreover from assms(1) have "distinct (map f (drop i xs))"
    by (simp add: drop_map[symmetric] del: drop_map)
  ultimately show ?thesis by simp
qed

lemma Next_dedupInv:
  assumes nx: "randomAlbumIter_Next r = Some (Return (x, r'))" and inv: "dedupInv returned r"
  shows "dedupInv (returned @ (case x of None \<Rightarrow> [] | Some a \<Rightarrow> [Album.ID a])) r'"
proof (cases "r_done r")
  case True
  with nx inv show ?thesis by (auto simp: randomAlbumIter_Next_def)
next
  case nd: False
  with nx obtain c s where loop: "fillLoop r = Some (c, s)"
    by (auto simp: randomAlbumIter_Next_def split: option.splits)
  from fillLoop_dedupInv[OF loop inv nd] fillLoop_exit[OF loop]
  have s: "dedupInv returned s" and lv: "c = Leave \<longrightarrow> \<not> r_done s \<and> r_prefetched s \<noteq> []"
    and c: "c \<noteq> Continue" by simp_all
  show ?thesis
  proof (cases "c = ReturnNil")
    case True
    with nx nd loop have "x = None" "r' = s" by (simp_all add: randomAlbumIter_Next_def)
    with s show ?thesis by simp
  next
    case False
    with c have cl: "c = Leave" by (cases c) simp_all
    with lv have nds: "\<not> r_done s" and ne: "r_prefetched s \<noteq> []" by simp_all
    let ?p = "r_prefetchedPos s" and ?xs = "r_prefetched s"
    from s nds ne have pos: "?p < length ?xs"
      and sub: "set returned \<union> Album.ID ` set ?xs \<subseteq> dom (r_albumIDSet s)"
      and dis: "distinct (map Album.ID ?xs)"
      and disj: "set returned \<inter> Album.ID ` set (drop ?p ?xs) = {}"
      and dr: "distinct returned"
      by (simp_all add: dedupInv_def)
    from pos have dropeq: "drop ?p ?xs = ?xs ! ?p # drop (Suc ?p) ?xs"
      by (simp add: Cons_nth_drop_Suc)
    from nx nd loop cl ne pos have x: "x = Some (?xs ! ?p)"
      and r': "r' = (if Suc ?p = length ?xs
                    then s\<lparr>r_prefetchedPos := Suc ?p, r_prefetched := [], r_prefetchedPos := 0\<rparr>
                    else s\<lparr>r_prefetchedPos := Suc ?p\<rparr>)"
      by (auto simp: randomAlbumIter_Next_def Let_def)
    have notret: "Album.ID (?xs ! ?p) \<notin> set returned"
      using disj dropeq by auto
    have inxs: "Album.ID (?xs ! ?p) \<in> Album.ID ` set ?xs"
      using pos by simp
    have indom: "Album.ID (?xs ! ?p) \<in> dom (r_albumIDSet s)"
      using sub inxs by blast
    have notlater: "Album.ID (?xs ! ?p) \<notin> Album.ID ` set (drop (Suc ?p) ?xs)"
      by (rule distinct_map_nth_notin_drop[OF dis pos])
    have later: "set returned \<inter> Album.ID ` set (drop (Suc ?p) ?xs) = {}"
      using disj dropeq by auto
    show ?thesis
    proof (cases "Suc ?p = length ?xs")
      case True
      with r' have "r' = s\<lparr>r_prefetchedPos := Suc ?p, r_prefetched := [], r_prefetchedPos := 0\<rparr>"
        by simp
      then show ?thesis using x dr notret sub indom nds
        by (auto simp: dedupInv_def)
    next
      case False
      with r' have "r' = s\<lparr>r_prefetchedPos := Suc ?p\<rparr>" by simp
      then show ?thesis using x dr notret sub indom nds pos False notlater later dis
        by (auto simp: dedupInv_def)
    qed
  qed
qed

lemma items_of_snoc:
  "items_of (acc @ [x]) = items_of acc @ (case x of None \<Rightarrow> [] | Some a \<Rightarrow> [a])"
  by (simp add: items_of_def)

lemma calls_dedupInv:
  assumes "calls randomAlbumIter_Next n r = Some (outs, r')" "dedupInv [] r"
  shows "dedupInv (map Album.ID (items_of outs)) r'"
proof -
  have "dedupInv (map Album.ID (items_of ([] @ outs))) r'"
  proof (rule calls_rule[OF assms(1), where I = "\<lambda>acc s. dedupInv (map Album.ID (items_of acc)) s"],
      goal_cases)
    case 1
    from assms(2) show ?case by (simp add: items_of_def)
  next
    case (2 a s x s')
    from Next_dedupInv[OF 2(2) 2(1)] show ?case
      by (cases x) (simp_all add: items_of_snoc)
  qed
  then show ?thesis by simp
qed

lemma items_of_append: "items_of (xs @ ys) = items_of xs @ items_of ys"
  by (simp add: items_of_def)

lemma items_of_Cons_Some: "items_of (Some a # xs) = a # items_of xs"
  by (simp add: items_of_def)

lemma distinct_items_nth:
  assumes d: "distinct (map f (items_of outs))" and ij: "i < j" and j: "j < length outs"
    and a: "outs ! i = Some a" and b: "outs ! j = Some b"
  shows "f a \<noteq> f b"
proof -
  from j have 1: "outs = take j outs @ Some b # drop (Suc j) outs"
    using b id_take_nth_drop[of j outs] by simp
  from ij j have "i < length (take j outs)" by simp
  from id_take_nth_drop[OF this] ij a
  have 2: "take j outs = take i (take j outs) @ Some a # drop (Suc i) (take j outs)" by simp
  have "items_of outs =
          items_of (take i (take j outs)) @ a # items_of (drop (Suc i) (take j outs)) @
          b # items_of (drop (Suc j) outs)"
    by (subst 1, subst 2) (simp add: items_of_append items_of_Cons_Some)
  with d show ?thesis by auto
qed

text \<open>
  Claim C4. For a random album iterator made by \<open>NewRandomAlbumIter\<close>, with any fetch
  functions and any filter, and any number of calls of \<open>Next\<close> that return: the albums
  returned have pairwise distinct IDs, that is, two results at different positions
  that are not the end-marker never have the same ID.
\<close>

theorem C4_no_album_twice:
  assumes "calls randomAlbumIter_Next n
             (NewRandomAlbumIter deterministicFetcher randomFetcher flt prefetchCoverCB)
           = Some (outs, r')"
  shows "distinct (map Album.ID (items_of outs)) \<and>
         (\<forall>i j a b. i < j \<and> j < length outs \<and> outs ! i = Some a \<and> outs ! j = Some b
            \<longrightarrow> Album.ID a \<noteq> Album.ID b)"
proof -
  have "dedupInv [] (NewRandomAlbumIter deterministicFetcher randomFetcher flt prefetchCoverCB)"
    by (simp add: dedupInv_def NewRandomAlbumIter_def)
  from calls_dedupInv[OF assms this] have "distinct (map Album.ID (items_of outs))"
    by (simp add: dedupInv_def)
  then show ?thesis using distinct_items_nth[of Album.ID outs] by blast
qed

theorem C4_no_album_twice_witness:
  "\<exists>r'. calls randomAlbumIter_Next 4
       (NewRandomAlbumIter
          (scripted [([], None), ([exampleAlbum ''a'', exampleAlbum ''c''], None)])
          (scripted [([exampleAlbum ''a'', exampleAlbum ''b'', exampleAlbum ''a''], None)])
          nilFilter True)
       = Some ([Some (exampleAlbum ''a''), Some (exampleAlbum ''b''),
                Some (exampleAlbum ''c''), None], r') \<and>
     distinct (map Album.ID (items_of
       [Some (exampleAlbum ''a''), Some (exampleAlbum ''b''), Some (exampleAlbum ''c''), None]))"
proof -
  define r where "r = NewRandomAlbumIter
          (scripted [([], None), ([exampleAlbum ''a'', exampleAlbum ''c''], None)])
          (scripted [([exampleAlbum ''a'', exampleAlbum ''b'', exampleAlbum ''a''], None)])
          nilFilter True"
  define outs where
    "outs = [Some (exampleAlbum ''a''), Some (exampleAlbum ''b''), Some (exampleAlbum ''c''), None]"
  obtain r' where run: "calls randomAlbumIter_Next 4 r = Some (outs, r')"
    by (simp add: r_def outs_def run_simps)
  from C4_no_album_twice[OF run[unfolded r_def]]
  have "distinct (map Album.ID (items_of outs))" by blast
  with run show ?thesis unfolding r_def outs_def by blast
qed

section \<open>Offsets advance by the length of the page\<close>

lemma offsetsChained_snoc:
  assumes "offsetsChained limit L" and "L \<noteq> [] \<longrightarrow> fetchedItems (last L) \<noteq> []"
  shows "offsetsChained limit (L @ [(nextOffset L, limit, resp)])"
proof -
  let ?e = "(nextOffset L, limit, resp)"
  have lim: "\<forall>k<length (L @ [?e]). fetchLimit ((L @ [?e]) ! k) = limit"
    using assms(1) by (auto simp: offsetsChained_def nth_append fetchLimit_def)
  have first: "fetchOffset ((L @ [?e]) ! 0) = 0"
    using assms(1) by (cases L) (auto simp: offsetsChained_def nextOffset_def fetchOffset_def)
  have step: "fetchOffset ((L @ [?e]) ! Suc k) =
                fetchOffset ((L @ [?e]) ! k) + length (fetchedItems ((L @ [?e]) ! k)) \<and>
              fetchOffset ((L @ [?e]) ! k) < fetchOffset ((L @ [?e]) ! Suc k)"
    if k: "Suc k < length (L @ [?e])" for k
  proof (cases "Suc k < length L")
    case True
    with assms(1) have "fetchOffset (L ! Suc k) = fetchOffset (L ! k) + length (fetchedItems (L ! k)) \<and>
              fetchOffset (L ! k) < fetchOffset (L ! Suc k)"
      unfolding offsetsChained_def by blast
    moreover from True have "(L @ [?e]) ! Suc k = L ! Suc k" "(L @ [?e]) ! k = L ! k"
      by (simp_all add: nth_append)
    ultimately show ?thesis by auto
  next
    case False
    with k have kl: "Suc k = length L" by simp
    then have ne: "L \<noteq> []" by auto
    from kl have "length L - Suc 0 = k" by simp
    with ne have lastk: "last L = L ! k" by (simp add: last_conv_nth)
    from kl have "(L @ [?e]) ! Suc k = ?e" "(L @ [?e]) ! k = L ! k"
      by (simp_all add: nth_append)
    moreover from assms(2) ne lastk have "fetchedItems (L ! k) \<noteq> []" by simp
    ultimately show ?thesis using ne lastk
      by (simp add: nextOffset_def fetchOffset_def)
  qed
  from lim first step show ?thesis unfolding offsetsChained_def by blast
qed

lemma chainInv_fetch:
  assumes "chainInv limit False pos L"
  shows "chainInv limit True pos' (L @ [(pos, limit, resp)])"
    and "fst resp \<noteq> [] \<Longrightarrow>
           chainInv limit False (pos + length (fst resp)) (L @ [(pos, limit, resp)])"
proof -
  from assms have c: "offsetsChained limit L" and p: "pos = nextOffset L"
    and l: "L \<noteq> [] \<longrightarrow> fetchedItems (last L) \<noteq> []"
    by (simp_all add: chainInv_def)
  from offsetsChained_snoc[OF c l, of resp] p
  have n: "offsetsChained limit (L @ [(pos, limit, resp)])" by simp
  then show "chainInv limit True pos' (L @ [(pos, limit, resp)])"
    by (simp add: chainInv_def)
  assume "fst resp \<noteq> []"
  with n show "chainInv limit False (pos + length (fst resp)) (L @ [(pos, limit, resp)])"
    by (simp add: chainInv_def nextOffset_def fetchOffset_def fetchedItems_def)
qed

lemma chainInv_finished: "chainInv limit f pos L \<Longrightarrow> chainInv limit True pos' L"
  by (simp add: chainInv_def)

subsection \<open>The generic iterator\<close>

lemma fetchStep_end:
  assumes "resp = b_fetcher r (length (b_log r)) (b_serverPos r) 20"
    and "snd resp \<noteq> None \<or> fst resp = []"
  shows "fetchStep r =
           (ReturnNil, r\<lparr>b_log := b_log r @ [(b_serverPos r, 20, resp)], b_done := True\<rparr>)"
  using assms by (auto simp: fetchStep_def Let_def)

lemma fetchStep_page:
  assumes "resp = b_fetcher r (length (b_log r)) (b_serverPos r) 20"
    and "snd resp = None" and "fst resp \<noteq> []"
    and "kept = (if IsNil (b_filter r) then fst resp else filter (Matches (b_filter r)) (fst resp))"
  shows "fetchStep r =
           (if kept \<noteq> [] then Leave else Continue,
            r\<lparr>b_log := b_log r @ [(b_serverPos r, 20, resp)],
              b_serverPos := b_serverPos r + length (fst resp),
              b_prefetched := kept\<rparr>)"
  using assms by (simp add: fetchStep_def Let_def FilterSlice_def)

lemma fetchStep_chainInv:
  assumes inv: "chainInv 20 False (b_serverPos s) (b_log s)" and nd: "\<not> b_done s"
    and st: "fetchStep s = (d, s')"
  shows "chainInv 20 (b_done s') (b_serverPos s') (b_log s') \<and> (d = Continue \<longrightarrow> \<not> b_done s')"
proof -
  let ?resp = "b_fetcher s (length (b_log s)) (b_serverPos s) 20"
  show ?thesis
  proof (cases "snd ?resp \<noteq> None \<or> fst ?resp = []")
    case True
    from fetchStep_end[OF refl True] st
    have "b_done s'" "b_log s' = b_log s @ [(b_serverPos s, 20, ?resp)]" "d = ReturnNil"
      by auto
    with chainInv_fetch(1)[OF inv, of _ ?resp] show ?thesis by simp
  next
    case False
    then have a: "snd ?resp = None" "fst ?resp \<noteq> []" by auto
    from fetchStep_page[OF refl a refl] st nd
    have "\<not> b_done s'" "b_log s' = b_log s @ [(b_serverPos s, 20, ?resp)]"
      "b_serverPos s' = b_serverPos s + length (fst ?resp)"
      by auto
    with chainInv_fetch(2)[OF inv a(2)] show ?thesis by simp
  qed
qed

lemma fetchLoop_chainInv:
  assumes run: "fetchLoop r = Some (c, r')"
    and inv: "chainInv 20 False (b_serverPos r) (b_log r)" and nd: "\<not> b_done r"
  shows "chainInv 20 (b_done r') (b_serverPos r') (b_log r')"
proof (rule fetchLoop_rule[OF run,
      where I = "\<lambda>s. chainInv 20 False (b_serverPos s) (b_log s) \<and> \<not> b_done s"
        and Q = "\<lambda>_ s. chainInv 20 (b_done s) (b_serverPos s) (b_log s)"], goal_cases)
  case 1
  from inv nd show ?case by simp
next
  case (2 s d s')
  then have "chainInv 20 False (b_serverPos s) (b_log s)" "\<not> b_done s" by simp_all
  from fetchStep_chainInv[OF this 2(2)] show ?case by auto
qed

lemma spawnPrefetch_fields [simp]:
  "b_done (spawnPrefetch r) = b_done r" "b_serverPos (spawnPrefetch r) = b_serverPos r"
  "b_log (spawnPrefetch r) = b_log r" "b_prefetched (spawnPrefetch r) = b_prefetched r"
  "b_prefetchedPos (spawnPrefetch r) = b_prefetchedPos r" "b_filter (spawnPrefetch r) = b_filter r"
  "b_fetcher (spawnPrefetch r) = b_fetcher r"
  by (simp_all add: spawnPrefetch_def split: option.splits)

lemma baseIter_Next_chainInv:
  assumes nx: "baseIter_Next r = Some (Return (x, r'))"
    and inv: "chainInv 20 (b_done r) (b_serverPos r) (b_log r)"
  shows "chainInv 20 (b_done r') (b_serverPos r') (b_log r')"
proof (cases "b_done r \<or> (b_prefetched r \<noteq> [] \<and> b_prefetchedPos r < length (b_prefetched r))")
  case True
  with nx inv show ?thesis by (auto simp: baseIter_Next_def split: if_splits)
next
  case False
  with nx obtain c s where loop: "fetchLoop (r\<lparr>b_prefetched := []\<rparr>) = Some (c, s)"
    by (auto simp: baseIter_Next_def split: option.splits)
  from False inv have "chainInv 20 False (b_serverPos (r\<lparr>b_prefetched := []\<rparr>))
      (b_log (r\<lparr>b_prefetched := []\<rparr>))" "\<not> b_done (r\<lparr>b_prefetched := []\<rparr>)"
    by simp_all
  from fetchLoop_chainInv[OF loop this] have s: "chainInv 20 (b_done s) (b_serverPos s) (b_log s)" .
  from nx False loop have "b_done r' = b_done s \<and> b_serverPos r' = b_serverPos s \<and> b_log r' = b_log s"
    by (auto simp: baseIter_Next_def Let_def split: control.splits if_splits)
  with s show ?thesis by simp
qed

lemma calls_baseIter_chainInv:
  assumes "calls baseIter_Next n r = Some (outs, r')"
    and "chainInv 20 (b_done r) (b_serverPos r) (b_log r)"
  shows "chainInv 20 (b_done r') (b_serverPos r') (b_log r')"
  by (rule calls_rule[OF assms(1),
        where I = "\<lambda>_ s. chainInv 20 (b_done s) (b_serverPos s) (b_log s)" and acc = "[]"])
     (use assms(2) baseIter_Next_chainInv in blast)+

subsection \<open>The random album iterator\<close>

lemma deterministicLog_simps [simp]:
  "deterministicLog (r\<lparr>r_log := r_log r @ [(DeterministicFetcher, e)]\<rparr>) = deterministicLog r @ [e]"
  "deterministicLog (r\<lparr>r_log := r_log r @ [(RandomFetcher, e)]\<rparr>) = deterministicLog r"
  by (simp_all add: deterministicLog_def)

lemma deterministicLog_cong: "r_log r' = r_log r \<Longrightarrow> deterministicLog r' = deterministicLog r"
  by (simp add: deterministicLog_def)

lemma fillStep_chainInv:
  assumes inv: "chainInv 25 False (r_offset s) (deterministicLog s)" and nd: "\<not> r_done s"
    and st: "fillStep s = (d, s')"
  shows "chainInv 25 (r_done s') (r_offset s') (deterministicLog s')"
proof (cases s rule: fillStep_cases)
  case (two_end resp)
  with st have "r_done s'" "deterministicLog s' = deterministicLog s @ [(r_offset s, 25, resp)]"
    by (auto simp: deterministicLog_def)
  with chainInv_fetch(1)[OF inv, of _ resp] show ?thesis by simp
next
  case (two_page resp)
  let ?s1 = "s\<lparr>r_log := r_log s @ [(DeterministicFetcher, r_offset s, 25, resp)],
               r_offset := r_offset s + length (fst resp)\<rparr>"
  from two_page(5) st have s': "s' = phaseTwoScan ?s1 (fst resp)" by simp
  have "r_log s' = r_log ?s1" "r_offset s' = r_offset ?s1" "r_done s' = r_done ?s1"
    unfolding s' by (simp_all add: phaseTwoScan_fields)
  with nd have "\<not> r_done s'" "r_offset s' = r_offset s + length (fst resp)"
    "deterministicLog s' = deterministicLog s @ [(r_offset s, 25, resp)]"
    by (simp_all add: deterministicLog_def)
  with chainInv_fetch(2)[OF inv two_page(4)] show ?thesis by simp
next
  case (one_err resp)
  with st have "r_done s'" "deterministicLog s' = deterministicLog s"
    by (auto simp: deterministicLog_def)
  with chainInv_finished[OF inv] show ?thesis by simp
next
  case (one_batch resp r2 hitCount)
  from phaseOneScan_fields[OF one_batch(4)]
  have "r_log r2 = r_log s @ [(RandomFetcher, 0, 25, resp)]" "r_offset r2 = r_offset s"
    "r_done r2 = r_done s" by simp_all
  with one_batch(5) st nd have "\<not> r_done s'" "r_offset s' = r_offset s"
    "deterministicLog s' = deterministicLog s"
    by (auto simp: deterministicLog_def split: if_splits)
  with inv show ?thesis by simp
qed

lemma fillLoop_chainInv:
  assumes run: "fillLoop r = Some (c, r')"
    and inv: "chainInv 25 (r_done r) (r_offset r) (deterministicLog r)" and nd: "\<not> r_done r"
  shows "chainInv 25 (r_done r') (r_offset r') (deterministicLog r')"
proof (rule fillLoop_rule[OF run,
      where I = "\<lambda>s. chainInv 25 False (r_offset s) (deterministicLog s) \<and> \<not> r_done s"
        and Q = "\<lambda>_ s. chainInv 25 (r_done s) (r_offset s) (deterministicLog s)"], goal_cases)
  case 1
  from inv nd show ?case by simp
next
  case (2 s d s')
  then have a: "chainInv 25 False (r_offset s) (deterministicLog s)" "\<not> r_done s" by simp_all
  from fillStep_chainInv[OF a 2(3)] fillStep_done[OF 2(3) a(2)] show ?case by auto
next
  case (3 s)
  then show ?case by simp
qed

lemma randomAlbumIter_Next_chainInv:
  assumes nx: "randomAlbumIter_Next r = Some (Return (x, r'))"
    and inv: "chainInv 25 (r_done r) (r_offset r) (deterministicLog r)"
  shows "chainInv 25 (r_done r') (r_offset r') (deterministicLog r')"
proof (cases "r_done r")
  case True
  with nx inv show ?thesis by (auto simp: randomAlbumIter_Next_def)
next
  case False
  with nx obtain c s where loop: "fillLoop r = Some (c, s)"
    by (auto simp: randomAlbumIter_Next_def split: option.splits)
  from fillLoop_chainInv[OF loop inv False]
  have s: "chainInv 25 (r_done s) (r_offset s) (deterministicLog s)" .
  from nx False loop have "r_done r' = r_done s \<and> r_offset r' = r_offset s \<and> r_log r' = r_log s"
    by (auto simp: randomAlbumIter_Next_def Let_def split: control.splits if_splits)
  with s show ?thesis by (simp add: deterministicLog_def)
qed

lemma calls_randomAlbumIter_chainInv:
  assumes "calls randomAlbumIter_Next n r = Some (outs, r')"
    and "chainInv 25 (r_done r) (r_offset r) (deterministicLog r)"
  shows "chainInv 25 (r_done r') (r_offset r') (deterministicLog r')"
  by (rule calls_rule[OF assms(1),
        where I = "\<lambda>_ s. chainInv 25 (r_done s) (r_offset s) (deterministicLog s)" and acc = "[]"])
     (use assms(2) randomAlbumIter_Next_chainInv in blast)+

text \<open>
  Claim C7. For a generic iterator made by one of the constructors, after any number of
  calls of \<open>Next\<close>, the fetches it has issued are chained with limit \<open>20\<close>: the first
  has offset \<open>0\<close>, and each later one has the offset of the one before plus the number of
  items that one returned (before filtering), a strictly larger offset. The same holds,
  with limit \<open>25\<close>, for the fetches that a random album iterator has issued to its
  deterministic fetcher.
\<close>

theorem C7_offsets_advance_by_page_length:
  "(calls baseIter_Next n (newBaseIter flt fetchFn) = Some (outs, r') \<longrightarrow>
      offsetsChained 20 (b_log r')) \<and>
   (calls randomAlbumIter_Next m
      (NewRandomAlbumIter deterministicFetcher randomFetcher aflt prefetchCoverCB)
      = Some (aouts, q') \<longrightarrow>
      offsetsChained 25 (deterministicLog q'))"
proof -
  have a: "chainInv 20 (b_done (newBaseIter flt fetchFn))
             (b_serverPos (newBaseIter flt fetchFn)) (b_log (newBaseIter flt fetchFn))"
    by (simp add: newBaseIter_def chainInv_def offsetsChained_def nextOffset_def)
  let ?q = "NewRandomAlbumIter deterministicFetcher randomFetcher aflt prefetchCoverCB"
  have b: "chainInv 25 (r_done ?q) (r_offset ?q) (deterministicLog ?q)"
    by (simp add: NewRandomAlbumIter_def chainInv_def offsetsChained_def nextOffset_def
        deterministicLog_def)
  from calls_baseIter_chainInv[OF _ a] calls_randomAlbumIter_chainInv[OF _ b]
  show ?thesis by (auto simp: chainInv_def)
qed

theorem C7_offsets_advance_by_page_length_witness:
  "(\<exists>r'. calls baseIter_Next 6
            (newBaseIter nilFilter
               (scripted [([Some 1, Some 2, Some (3 :: nat)], None), ([Some 4, Some 5], None)]))
          = Some ([Some 1, Some 2, Some 3, Some 4, Some 5, None], r') \<and>
        map fetchOffset (b_log r') = [0, 3, 5] \<and>
        offsetsChained 20 (b_log r')) \<and>
   (\<exists>q'. calls randomAlbumIter_Next 4
            (NewRandomAlbumIter
               (scripted [([], None), ([exampleAlbum ''a'', exampleAlbum ''c''], None)])
               (scripted [([exampleAlbum ''a'', exampleAlbum ''b''], None)])
               nilFilter True)
          = Some ([Some (exampleAlbum ''a''), Some (exampleAlbum ''b''),
                   Some (exampleAlbum ''c''), None], q') \<and>
        map fetchOffset (deterministicLog q') = [0, 2] \<and>
        offsetsChained 25 (deterministicLog q'))"
proof -
  define b where "b = newBaseIter nilFilter
               (scripted [([Some 1, Some 2, Some (3 :: nat)], None), ([Some 4, Some 5], None)])"
  define q where "q = NewRandomAlbumIter
               (scripted [([], None), ([exampleAlbum ''a'', exampleAlbum ''c''], None)])
               (scripted [([exampleAlbum ''a'', exampleAlbum ''b''], None)])
               nilFilter True"
  define bouts where "bouts = [Some 1, Some 2, Some 3, Some 4, Some 5, None :: nat option]"
  define qouts where "qouts = [Some (exampleAlbum ''a''), Some (exampleAlbum ''b''),
                   Some (exampleAlbum ''c''), None]"
  obtain r' where rb: "calls baseIter_Next 6 b = Some (bouts, r')"
    and lb: "map fetchOffset (b_log r') = [0, 3, 5]"
    by (simp add: b_def bouts_def base_run_simps fetchOffset_def)
  obtain q' where rq: "calls randomAlbumIter_Next 4 q = Some (qouts, q')"
    and lq: "map fetchOffset (deterministicLog q') = [0, 2]"
    by (simp add: q_def qouts_def run_simps fetchOffset_def deterministicLog_def)
  have "(calls baseIter_Next 6 b = Some (bouts, r') \<longrightarrow> offsetsChained 20 (b_log r')) \<and>
        (calls randomAlbumIter_Next 4 q = Some (qouts, q') \<longrightarrow>
           offsetsChained 25 (deterministicLog q'))"
    unfolding b_def q_def by (rule C7_offsets_advance_by_page_length)
  with rb rq have cb: "offsetsChained 20 (b_log r')" and cq: "offsetsChained 25 (deterministicLog q')"
    by simp_all
  have "\<exists>r'. calls baseIter_Next 6 b = Some (bouts, r') \<and>
        map fetchOffset (b_log r') = [0, 3, 5] \<and> offsetsChained 20 (b_log r')"
    using rb lb cb by (intro exI[of _ r']) (simp del: calls.simps)
  moreover have "\<exists>q'. calls randomAlbumIter_Next 4 q = Some (qouts, q') \<and>
        map fetchOffset (deterministicLog q') = [0, 2] \<and>
        offsetsChained 25 (deterministicLog q')"
    using rq lq cq by (intro exI[of _ q']) (simp del: calls.simps)
  ultimately show ?thesis unfolding b_def q_def bouts_def qouts_def by (rule conjI)
qed

section \<open>The rounds of the generic iterator\<close>

lemma fetchStep_cases [case_names page_end page]:
  assumes "\<And>resp. \<lbrakk>resp = b_fetcher r (length (b_log r)) (b_serverPos r) 20;
              snd resp \<noteq> None \<or> fst resp = [];
              fetchStep r =
                (ReturnNil, r\<lparr>b_log := b_log r @ [(b_serverPos r, 20, resp)], b_done := True\<rparr>)\<rbrakk>
            \<Longrightarrow> P"
    and "\<And>resp kept. \<lbrakk>resp = b_fetcher r (length (b_log r)) (b_serverPos r) 20;
              snd resp = None; fst resp \<noteq> [];
              kept = (if IsNil (b_filter r) then fst resp
                      else filter (Matches (b_filter r)) (fst resp));
              fetchStep r =
                (if kept \<noteq> [] then Leave else Continue,
                 r\<lparr>b_log := b_log r @ [(b_serverPos r, 20, resp)],
                   b_serverPos := b_serverPos r + length (fst resp),
                   b_prefetched := kept\<rparr>)\<rbrakk>
            \<Longrightarrow> P"
  shows P
proof (cases "snd (b_fetcher r (length (b_log r)) (b_serverPos r) 20) \<noteq> None \<or>
              fst (b_fetcher r (length (b_log r)) (b_serverPos r) 20) = []")
  case True
  from assms(1)[OF refl True fetchStep_end[OF refl True]] show ?thesis .
next
  case False
  then have a: "snd (b_fetcher r (length (b_log r)) (b_serverPos r) 20) = None"
    "fst (b_fetcher r (length (b_log r)) (b_serverPos r) 20) \<noteq> []" by auto
  from assms(2)[OF refl a refl fetchStep_page[OF refl a refl]] show ?thesis .
qed

lemma fetchStep_fields:
  assumes "fetchStep r = (d, s)"
  shows "b_filter s = b_filter r \<and> b_fetcher s = b_fetcher r \<and> b_prefetchCB s = b_prefetchCB r \<and>
         b_prefetchedPos s = b_prefetchedPos r \<and> b_spawned s = b_spawned r \<and>
         (d \<noteq> ReturnNil \<longrightarrow> b_done s = b_done r)"
  using assms by (cases r rule: fetchStep_cases) (auto split: if_splits)

lemma fetchLoop_fields:
  assumes "fetchLoop r = Some (c, s)"
  shows "b_filter s = b_filter r \<and> b_fetcher s = b_fetcher r \<and> b_prefetchCB s = b_prefetchCB r \<and>
         b_prefetchedPos s = b_prefetchedPos r \<and> b_spawned s = b_spawned r \<and>
         (c \<noteq> ReturnNil \<longrightarrow> b_done s = b_done r)"
proof (rule fetchLoop_rule[OF assms,
      where I = "\<lambda>s. b_filter s = b_filter r \<and> b_fetcher s = b_fetcher r \<and>
                     b_prefetchCB s = b_prefetchCB r \<and>
                     b_prefetchedPos s = b_prefetchedPos r \<and> b_spawned s = b_spawned r \<and>
                     b_done s = b_done r"
        and Q = "\<lambda>c s. b_filter s = b_filter r \<and> b_fetcher s = b_fetcher r \<and>
                     b_prefetchCB s = b_prefetchCB r \<and>
                     b_prefetchedPos s = b_prefetchedPos r \<and> b_spawned s = b_spawned r \<and>
                     (c \<noteq> ReturnNil \<longrightarrow> b_done s = b_done r)"], goal_cases)
  case 1
  show ?case by simp
next
  case (2 s d s')
  from fetchStep_fields[OF 2(2)] 2(1) show ?case by auto
qed

subsection \<open>The three ways in which Next returns\<close>

lemma baseIter_Next_done: "b_done r \<Longrightarrow> baseIter_Next r = Some (Return (None, r))"
  by (simp add: baseIter_Next_def)

lemma baseIter_Next_buffered:
  assumes "\<not> b_done r" "b_prefetchedPos r < length (b_prefetched r)"
  shows "baseIter_Next r =
           Some (Return (b_prefetched r ! b_prefetchedPos r,
                         r\<lparr>b_prefetchedPos := b_prefetchedPos r + 1\<rparr>))"
  using assms by (auto simp: baseIter_Next_def)

lemma baseIter_Next_fetch:
  assumes "\<not> b_done r" "length (b_prefetched r) \<le> b_prefetchedPos r"
  shows "baseIter_Next r =
           (case fetchLoop (r\<lparr>b_prefetched := []\<rparr>) of
              None \<Rightarrow> None
            | Some (c, s) \<Rightarrow>
                if c = ReturnNil then Some (Return (None, s))
                else Some (Return (b_prefetched s ! 0,
                                   spawnPrefetch (s\<lparr>b_prefetchedPos := 1\<rparr>))))"
proof -
  from assms have unf: "baseIter_Next r =
      (case fetchLoop (r\<lparr>b_prefetched := []\<rparr>) of
          None \<Rightarrow> None
        | Some (ReturnNil, r') \<Rightarrow> Some (Return (None, r'))
        | Some (_, r') \<Rightarrow>
            (let r2 = spawnPrefetch (r'\<lparr>b_prefetchedPos := 1\<rparr>)
             in if 0 < length (b_prefetched r2)
                then Some (Return (b_prefetched r2 ! 0, r2))
                else Some Panic))"
    unfolding baseIter_Next_def by auto
  show ?thesis
  proof (cases "fetchLoop (r\<lparr>b_prefetched := []\<rparr>)")
    case None
    then show ?thesis unfolding unf by simp
  next
    case (Some y)
    obtain c s where y: "y = (c, s)" by (cases y)
    with Some have loop: "fetchLoop (r\<lparr>b_prefetched := []\<rparr>) = Some (c, s)" by simp
    from fetchLoop_exit[OF loop]
    have ex: "c \<noteq> Continue" "c = Leave \<longrightarrow> b_prefetched s \<noteq> []" by simp_all
    show ?thesis
    proof (cases c)
      case Continue
      with ex show ?thesis by simp
    next
      case Leave
      with ex have "b_prefetched (spawnPrefetch (s\<lparr>b_prefetchedPos := 1\<rparr>)) \<noteq> []"
        by (simp add: spawnPrefetch_fields)
      with Leave show ?thesis unfolding unf loop
        by (simp add: Let_def spawnPrefetch_fields)
    next
      case ReturnNil
      then show ?thesis unfolding unf loop by simp
    qed
  qed
qed

lemma baseIter_inversion:
  assumes "baseIter_Next r = Some (Return (x, r'))"
  obtains (finished) "b_done r" "x = None" "r' = r"
  | (buffered) "\<not> b_done r" "b_prefetchedPos r < length (b_prefetched r)"
      "x = b_prefetched r ! b_prefetchedPos r"
      "r' = r\<lparr>b_prefetchedPos := b_prefetchedPos r + 1\<rparr>"
  | (exhausted) s where "\<not> b_done r" "length (b_prefetched r) \<le> b_prefetchedPos r"
      "fetchLoop (r\<lparr>b_prefetched := []\<rparr>) = Some (ReturnNil, s)" "x = None" "r' = s"
  | (fetched) s where "\<not> b_done r" "length (b_prefetched r) \<le> b_prefetchedPos r"
      "fetchLoop (r\<lparr>b_prefetched := []\<rparr>) = Some (Leave, s)" "b_prefetched s \<noteq> []"
      "x = b_prefetched s ! 0" "r' = spawnPrefetch (s\<lparr>b_prefetchedPos := 1\<rparr>)"
proof (cases "b_done r")
  case True
  from assms True have "x = None" "r' = r" by (auto simp: baseIter_Next_done)
  with True show ?thesis by (rule finished)
next
  case nd: False
  show ?thesis
  proof (cases "b_prefetchedPos r < length (b_prefetched r)")
    case True
    from assms nd True have "x = b_prefetched r ! b_prefetchedPos r"
      "r' = r\<lparr>b_prefetchedPos := b_prefetchedPos r + 1\<rparr>"
      by (auto simp: baseIter_Next_buffered)
    with nd True show ?thesis by (rule buffered)
  next
    case False
    then have le: "length (b_prefetched r) \<le> b_prefetchedPos r" by simp
    from assms baseIter_Next_fetch[OF nd le] obtain c s where
      loop: "fetchLoop (r\<lparr>b_prefetched := []\<rparr>) = Some (c, s)"
      by (auto split: option.splits)
    from fetchLoop_exit[OF loop] have ex: "c \<noteq> Continue" "c = Leave \<longrightarrow> b_prefetched s \<noteq> []"
      by simp_all
    from assms baseIter_Next_fetch[OF nd le] loop
    have res: "(if c = ReturnNil then Some (Return (None, s))
                else Some (Return (b_prefetched s ! 0,
                                   spawnPrefetch (s\<lparr>b_prefetchedPos := 1\<rparr>))))
               = Some (Return (x, r'))"
      by simp
    show ?thesis
    proof (cases "c = ReturnNil")
      case True
      with res have "x = None" "r' = s" by auto
      with nd le loop True show ?thesis by (intro exhausted[of s]) simp_all
    next
      case False
      with ex have c: "c = Leave" and ne: "b_prefetched s \<noteq> []" by (cases c; simp)+
      from res False have "x = b_prefetched s ! 0"
        "r' = spawnPrefetch (s\<lparr>b_prefetchedPos := 1\<rparr>)" by auto
      with nd le loop c ne show ?thesis by (intro fetched[of s]) simp_all
    qed
  qed
qed



section \<open>Filtering\<close>

lemma served_snoc: "served (L @ [e]) = served L @ effectiveItems e"
  by (simp add: served_def)

lemma fetchLoop_matches:
  assumes run: "fetchLoop r = Some (c, s)" and nn: "\<not> IsNil (b_filter r)"
    and pre: "\<forall>x\<in>set (b_prefetched r). Matches (b_filter r) x"
  shows "\<forall>x\<in>set (b_prefetched s). Matches (b_filter r) x"
proof (rule fetchLoop_rule[OF run,
      where I = "\<lambda>s. b_filter s = b_filter r \<and> (\<forall>x\<in>set (b_prefetched s). Matches (b_filter r) x)"
        and Q = "\<lambda>_ s. \<forall>x\<in>set (b_prefetched s). Matches (b_filter r) x"], goal_cases)
  case 1
  from pre show ?case by simp
next
  case (2 s d s')
  then show ?case using nn
    by (cases s rule: fetchStep_cases) (auto split: if_splits)
qed

lemma baseIter_Next_matches:
  assumes nx: "baseIter_Next r = Some (Return (x, r'))" and nn: "\<not> IsNil (b_filter r)"
    and pre: "\<forall>x\<in>set (b_prefetched r). Matches (b_filter r) x"
  shows "b_filter r' = b_filter r \<and> (\<forall>x\<in>set (b_prefetched r'). Matches (b_filter r) x) \<and>
         (x \<noteq> None \<longrightarrow> Matches (b_filter r) x)"
  using nx
proof (cases rule: baseIter_inversion)
  case finished
  with pre show ?thesis by simp
next
  case buffered
  with pre show ?thesis by simp
next
  case (exhausted s)
  from fetchLoop_matches[OF exhausted(3)] nn fetchLoop_fields[OF exhausted(3)] exhausted(4,5)
  show ?thesis by simp
next
  case (fetched s)
  from fetchLoop_matches[OF fetched(3)] nn
  have "\<forall>x\<in>set (b_prefetched s). Matches (b_filter r) x" by simp
  moreover from fetched(4) have "b_prefetched s ! 0 \<in> set (b_prefetched s)" by simp
  ultimately show ?thesis using fetchLoop_fields[OF fetched(3)] fetched(5,6)
    by (simp add: spawnPrefetch_fields)
qed

lemma calls_baseIter_matches:
  assumes run: "calls baseIter_Next n r = Some (outs, r')" and nn: "\<not> IsNil (b_filter r)"
    and pre: "\<forall>x\<in>set (b_prefetched r). Matches (b_filter r) x"
  shows "\<forall>x\<in>set outs. x \<noteq> None \<longrightarrow> Matches (b_filter r) x"
proof -
  let ?I = "\<lambda>acc s. b_filter s = b_filter r \<and>
              (\<forall>x\<in>set (b_prefetched s). Matches (b_filter r) x) \<and>
              (\<forall>x\<in>set acc. x \<noteq> None \<longrightarrow> Matches (b_filter r) x)"
  have "?I ([] @ outs) r'"
  proof (rule calls_rule[OF run, where I = ?I], goal_cases)
    case 1
    from pre show ?case by simp
  next
    case (2 a s x s')
    then have f: "b_filter s = b_filter r" by simp
    from baseIter_Next_matches[OF 2(2)] 2(1) nn f show ?case by auto
  qed
  then show ?thesis by simp
qed

lemma fetchLoop_passes:
  assumes run: "fetchLoop r = Some (c, s)" and nil: "IsNil (b_filter r)"
    and e: "b_prefetched r = []"
  shows "(c = ReturnNil \<longrightarrow> served (b_log s) = served (b_log r) \<and> b_prefetched s = []) \<and>
         (c = Leave \<longrightarrow> served (b_log s) = served (b_log r) @ b_prefetched s)"
proof (rule fetchLoop_rule[OF run,
      where I = "\<lambda>s. b_filter s = b_filter r \<and> served (b_log s) = served (b_log r) \<and>
                     b_prefetched s = []"
        and Q = "\<lambda>c s. (c = ReturnNil \<longrightarrow> served (b_log s) = served (b_log r) \<and> b_prefetched s = []) \<and>
                       (c = Leave \<longrightarrow> served (b_log s) = served (b_log r) @ b_prefetched s)"],
    goal_cases)
  case 1
  from e show ?case by simp
next
  case (2 s d s')
  show ?case
  proof (cases s rule: fetchStep_cases)
    case (page_end resp)
    with 2 show ?thesis by (auto simp: served_snoc effectiveItems_def)
  next
    case (page resp kept)
    with 2 nil show ?thesis by (auto simp: served_snoc effectiveItems_def split: if_splits)
  qed
qed

text \<open>
  The invariant of the calls on an iterator whose filter is nil: before the end, what
  was handed out and what is still in the buffer is what the server returned; at the
  end, the buffer is empty and everything the server returned was handed out before
  the end-markers.
\<close>

lemma baseIter_Next_passes:
  assumes nx: "baseIter_Next r = Some (Return (x, r'))" and nil: "IsNil (b_filter r)"
    and pre1: "\<not> b_done r \<longrightarrow>
                 acc @ drop (b_prefetchedPos r) (b_prefetched r) = served (b_log r)"
    and pre2: "b_done r \<longrightarrow>
                 b_prefetched r = [] \<and> (\<exists>k. acc = served (b_log r) @ replicate k None)"
  shows "b_filter r' = b_filter r \<and>
         (\<not> b_done r' \<longrightarrow>
            (acc @ [x]) @ drop (b_prefetchedPos r') (b_prefetched r') = served (b_log r')) \<and>
         (b_done r' \<longrightarrow>
            b_prefetched r' = [] \<and> (\<exists>k. acc @ [x] = served (b_log r') @ replicate k None))"
  using nx
proof (cases rule: baseIter_inversion)
  case finished
  with pre2 obtain k where "b_prefetched r = []" "acc = served (b_log r) @ replicate k None"
    by blast
  then have "acc @ [None] = served (b_log r) @ replicate (Suc k) None"
    by (simp add: replicate_append_same)
  with finished \<open>b_prefetched r = []\<close> show ?thesis by blast
next
  case buffered
  from buffered(2) have "drop (b_prefetchedPos r) (b_prefetched r) =
      b_prefetched r ! b_prefetchedPos r # drop (Suc (b_prefetchedPos r)) (b_prefetched r)"
    by (simp add: Cons_nth_drop_Suc)
  with pre1 buffered show ?thesis by simp
next
  case (exhausted s)
  from exhausted(1,2) pre1 have acc: "acc = served (b_log r)" by simp
  from fetchLoop_exit[OF exhausted(3)] have d: "b_done s" by simp
  from fetchLoop_passes[OF exhausted(3)] nil
  have "served (b_log s) = served (b_log r)" "b_prefetched s = []" by simp_all
  with acc have "\<exists>k. acc @ [None] = served (b_log s) @ replicate k None"
    by (intro exI[of _ "Suc 0"]) simp
  moreover from fetchLoop_fields[OF exhausted(3)] have "b_filter s = b_filter r" by simp
  ultimately show ?thesis using d \<open>b_prefetched s = []\<close> exhausted(4,5) by simp
next
  case (fetched s)
  from fetched(1,2) pre1 have acc: "acc = served (b_log r)" by simp
  from fetchLoop_fields[OF fetched(3)] fetched(1) have nd: "\<not> b_done s" by simp
  from fetched(4) have "b_prefetched s = b_prefetched s ! 0 # drop (Suc 0) (b_prefetched s)"
    using Cons_nth_drop_Suc[of 0 "b_prefetched s"] by simp
  moreover from fetchLoop_passes[OF fetched(3)] nil
  have "served (b_log s) = served (b_log r) @ b_prefetched s" by simp
  ultimately have "(acc @ [b_prefetched s ! 0]) @ drop (Suc 0) (b_prefetched s) = served (b_log s)"
    using acc by simp
  with nd fetchLoop_fields[OF fetched(3)] fetched(5,6) show ?thesis
    by (simp add: spawnPrefetch_fields)
qed

lemma items_of_replicate_None: "items_of (replicate k None) = []"
  by (induction k) (simp_all add: items_of_def)

lemma calls_baseIter_passes:
  assumes run: "calls baseIter_Next n r = Some (outs, r')" and nil: "IsNil (b_filter r)"
    and nd: "\<not> b_done r"
    and pre: "drop (b_prefetchedPos r) (b_prefetched r) = served (b_log r)"
  shows "passedThrough outs r'"
proof -
  let ?I = "\<lambda>acc s. b_filter s = b_filter r \<and>
              (\<not> b_done s \<longrightarrow>
                 acc @ drop (b_prefetchedPos s) (b_prefetched s) = served (b_log s)) \<and>
              (b_done s \<longrightarrow>
                 b_prefetched s = [] \<and> (\<exists>k. acc = served (b_log s) @ replicate k None))"
  have "?I ([] @ outs) r'"
  proof (rule calls_rule[OF run, where I = ?I], goal_cases)
    case 1
    from pre nd show ?case by simp
  next
    case (2 a s x s')
    then have "IsNil (b_filter s)"
      "\<not> b_done s \<longrightarrow> a @ drop (b_prefetchedPos s) (b_prefetched s) = served (b_log s)"
      "b_done s \<longrightarrow> b_prefetched s = [] \<and> (\<exists>k. a = served (b_log s) @ replicate k None)"
      using nil by simp_all
    from baseIter_Next_passes[OF 2(2) this] 2(1) show ?case by simp
  qed
  then have a: "\<not> b_done r' \<longrightarrow>
                 outs @ drop (b_prefetchedPos r') (b_prefetched r') = served (b_log r')"
    and b: "b_done r' \<longrightarrow>
                 b_prefetched r' = [] \<and> (\<exists>k. outs = served (b_log r') @ replicate k None)"
    by simp_all
  have "items_of outs @ items_of (drop (b_prefetchedPos r') (b_prefetched r'))
          = items_of (served (b_log r'))"
  proof (cases "b_done r'")
    case True
    with b obtain k where "b_prefetched r' = []" "outs = served (b_log r') @ replicate k None"
      by blast
    then show ?thesis by (simp add: items_of_append items_of_replicate_None items_of_def)
  next
    case False
    with a have "outs @ drop (b_prefetchedPos r') (b_prefetched r') = served (b_log r')" by simp
    then have "items_of (outs @ drop (b_prefetchedPos r') (b_prefetched r'))
                 = items_of (served (b_log r'))" by simp
    then show ?thesis by (simp add: items_of_append)
  qed
  with a b show ?thesis unfolding passedThrough_def by blast
qed

text \<open>
  Claim C5. For a generic iterator made by one of the constructors and any number of
  calls of \<open>Next\<close> that return: if the filter is not nil (\<open>IsNil\<close> is false), every result
  that is not nil satisfies \<open>Matches\<close>; if the filter is nil, the iterator passes on what
  the server returned: the results, followed by the unread rest of the buffer, are exactly
  the elements of all pages fetched without error, in the order of the server, and after
  the end only end-markers follow them: nothing is dropped, added or reordered. The
  latter holds for every track iterator, whose filter is \<open>nilFilter\<close>.
\<close>

theorem C5_filter_correctness:
  "(calls baseIter_Next n (newBaseIter flt fetchFn) = Some (outs, r') \<longrightarrow>
      (\<not> IsNil flt \<longrightarrow> (\<forall>x\<in>set outs. x \<noteq> None \<longrightarrow> Matches flt x)) \<and>
      (IsNil flt \<longrightarrow> passedThrough outs r')) \<and>
   (calls baseIter_Next n (NewTrackIterator fetchFn) = Some (outs, r') \<longrightarrow>
      passedThrough outs r')"
proof -
  let ?r = "newBaseIter flt fetchFn"
  have f: "b_filter ?r = flt" "b_prefetched ?r = []" "b_log ?r = []"
    by (simp_all add: newBaseIter_def)
  have a: "\<forall>x\<in>set outs. x \<noteq> None \<longrightarrow> Matches flt x"
    if "calls baseIter_Next n ?r = Some (outs, r')" "\<not> IsNil flt"
    using calls_baseIter_matches[OF that(1)] that(2) f by simp
  have b: "passedThrough outs r'"
    if "calls baseIter_Next n (newBaseIter g fetchFn) = Some (outs, r')" "IsNil g" for g
    using calls_baseIter_passes[OF that(1)] that(2)
    by (simp add: newBaseIter_def served_def)
  from a b[of flt] b[of nilFilter] show ?thesis
    by (auto simp: NewTrackIterator_def nilFilter_def)
qed

theorem C5_filter_correctness_witness:
  "(\<exists>r'. calls baseIter_Next 3
            (newBaseIter
               \<lparr>IsNil = False, Matches = (\<lambda>p. case p of None \<Rightarrow> False | Some (n::nat) \<Rightarrow> 10 \<le> n)\<rparr>
               (scripted [([Some 11, Some 5, None, Some 12, Some 3], None)]))
          = Some ([Some 11, Some 12, None], r') \<and>
        list_all (\<lambda>p. case p of None \<Rightarrow> True | Some (n::nat) \<Rightarrow> 10 \<le> n)
          [Some 11, Some 12, None]) \<and>
   (\<exists>r'. calls baseIter_Next 2
            (NewTrackIterator (scripted [([Some 11, None, Some (12 :: nat)], None)]))
          = Some ([Some 11, None], r') \<and>
        passedThrough [Some 11, None] r' \<and> \<not> b_done r' \<and>
        served (b_log r') = [Some 11, None, Some 12])"
proof -
  define flt where
    "flt = \<lparr>IsNil = False, Matches = (\<lambda>p. case p of None \<Rightarrow> False | Some (n::nat) \<Rightarrow> 10 \<le> n)\<rparr>"
  define f1 where "f1 = scripted [([Some 11, Some 5, None, Some 12, Some (3 :: nat)], None)]"
  define f2 where "f2 = scripted [([Some 11, None, Some (12 :: nat)], None)]"
  define o1 where "o1 = [Some 11, Some 12, None :: nat option]"
  define o2 where "o2 = [Some 11, None :: nat option]"
  obtain r1 where r1: "calls baseIter_Next 3 (newBaseIter flt f1) = Some (o1, r1)"
    by (simp add: flt_def f1_def o1_def base_run_simps)
  obtain r2 where r2: "calls baseIter_Next 2 (NewTrackIterator f2) = Some (o2, r2)"
    and s2: "served (b_log r2) = [Some 11, None, Some 12]" and d2: "\<not> b_done r2"
    by (simp add: f2_def o2_def NewTrackIterator_def base_run_simps served_def effectiveItems_def)
  have nn: "\<not> IsNil flt" by (simp add: flt_def)
  from C5_filter_correctness[of 3 flt f1 o1 r1] r1 nn
  have "\<forall>x\<in>set o1. x \<noteq> None \<longrightarrow> Matches flt x"
    by (simp del: calls.simps)
  then have a: "list_all (\<lambda>p. case p of None \<Rightarrow> True | Some (n::nat) \<Rightarrow> 10 \<le> n) o1"
    by (auto simp: list_all_iff flt_def split: option.splits)
  from C5_filter_correctness[of 2 nilFilter f2 o2 r2] r2
  have b: "passedThrough o2 r2"
    by (simp del: calls.simps)
  have "\<exists>r'. calls baseIter_Next 3 (newBaseIter flt f1) = Some (o1, r') \<and>
        list_all (\<lambda>p. case p of None \<Rightarrow> True | Some (n::nat) \<Rightarrow> 10 \<le> n) o1"
    using r1 a by (intro exI[of _ r1]) (simp del: calls.simps)
  moreover have "\<exists>r'. calls baseIter_Next 2 (NewTrackIterator f2) = Some (o2, r') \<and>
        passedThrough o2 r' \<and> \<not> b_done r' \<and> served (b_log r') = [Some 11, None, Some 12]"
    using r2 b s2 d2 by (intro exI[of _ r2]) (simp del: calls.simps)
  ultimately show ?thesis unfolding flt_def f1_def f2_def o1_def o2_def by (rule conjI)
qed

section \<open>Handing out pages\<close>

lemma calls_buffered:
  assumes "\<not> b_done r" "k = length (b_prefetched r) - b_prefetchedPos r"
    "b_prefetchedPos r \<le> length (b_prefetched r)"
  shows "calls baseIter_Next k r =
           Some (drop (b_prefetchedPos r) (b_prefetched r),
                 r\<lparr>b_prefetchedPos := length (b_prefetched r)\<rparr>)"
  using assms
proof (induction k arbitrary: r)
  case 0
  then have "b_prefetchedPos r = length (b_prefetched r)" by simp
  then have "r\<lparr>b_prefetchedPos := length (b_prefetched r)\<rparr> = r"
    by (metis baseIter.surjective baseIter.update_convs(6))
  with 0 show ?case by simp
next
  case (Suc k)
  then have lt: "b_prefetchedPos r < length (b_prefetched r)" by simp
  let ?r1 = "r\<lparr>b_prefetchedPos := b_prefetchedPos r + 1\<rparr>"
  have nx: "baseIter_Next r = Some (Return (b_prefetched r ! b_prefetchedPos r, ?r1))"
    by (rule baseIter_Next_buffered[OF Suc.prems(1) lt])
  have "calls baseIter_Next k ?r1 =
          Some (drop (b_prefetchedPos ?r1) (b_prefetched ?r1),
                ?r1\<lparr>b_prefetchedPos := length (b_prefetched ?r1)\<rparr>)"
    using Suc.prems lt by (intro Suc.IH) simp_all
  with nx lt show ?case
    by (simp add: Cons_nth_drop_Suc[symmetric])
qed

text \<open>A fetch that leaves the loop with a page, and the calls that hand the page out.\<close>

lemma calls_page:
  assumes nd: "\<not> b_done r" and ex: "length (b_prefetched r) \<le> b_prefetchedPos r"
    and loop: "fetchLoop (r\<lparr>b_prefetched := []\<rparr>) = Some (Leave, s)"
  shows "calls baseIter_Next (length (b_prefetched s)) r =
           Some (b_prefetched s,
                 (spawnPrefetch (s\<lparr>b_prefetchedPos := 1\<rparr>))
                   \<lparr>b_prefetchedPos := length (b_prefetched s)\<rparr>)"
proof -
  let ?u = "spawnPrefetch (s\<lparr>b_prefetchedPos := 1\<rparr>)"
  from fetchLoop_exit[OF loop] have ne: "b_prefetched s \<noteq> []" by simp
  from fetchLoop_fields[OF loop] nd have nds: "\<not> b_done s" by simp
  have nx: "baseIter_Next r = Some (Return (b_prefetched s ! 0, ?u))"
    using baseIter_Next_fetch[OF nd ex] loop by simp
  have u: "\<not> b_done ?u" "b_prefetched ?u = b_prefetched s" "b_prefetchedPos ?u = 1"
    using nds by (simp_all add: spawnPrefetch_fields)
  from ne obtain k where k: "length (b_prefetched s) = Suc k" by (cases "b_prefetched s") auto
  have "calls baseIter_Next k ?u =
          Some (drop (b_prefetchedPos ?u) (b_prefetched ?u),
                ?u\<lparr>b_prefetchedPos := length (b_prefetched ?u)\<rparr>)"
    using u k by (intro calls_buffered) simp_all
  then have rest: "calls baseIter_Next k ?u =
          Some (drop 1 (b_prefetched s), ?u\<lparr>b_prefetchedPos := length (b_prefetched s)\<rparr>)"
    using u by simp
  from ne have "b_prefetched s = b_prefetched s ! 0 # drop 1 (b_prefetched s)"
    using Cons_nth_drop_Suc[of 0 "b_prefetched s"] by simp
  with nx rest show ?thesis unfolding k by simp
qed

lemma fetchLoop_Continue:
  "fetchStep r = (Continue, s) \<Longrightarrow> fetchLoop r = fetchLoop s"
  by (subst fetchLoop_code) simp

lemma fetchLoop_stop:
  "fetchStep r = (c, s) \<Longrightarrow> c \<noteq> Continue \<Longrightarrow> fetchLoop r = Some (c, s)"
  by (subst fetchLoop_code) simp

lemma fetchLoop_page:
  assumes "resp = b_fetcher q (length (b_log q)) (b_serverPos q) 20"
    and "snd resp = None" and "fst resp \<noteq> []"
    and "kept = (if IsNil (b_filter q) then fst resp else filter (Matches (b_filter q)) (fst resp))"
    and "kept \<noteq> []"
  shows "fetchLoop q =
           Some (Leave, q\<lparr>b_log := b_log q @ [(b_serverPos q, 20, resp)],
                          b_serverPos := b_serverPos q + length (fst resp),
                          b_prefetched := kept\<rparr>)"
  using fetchStep_page[OF assms(1-4)] assms(5) by (intro fetchLoop_stop) simp_all

lemma fetchLoop_skip:
  assumes "resp = b_fetcher q (length (b_log q)) (b_serverPos q) 20"
    and "snd resp = None" and "fst resp \<noteq> []"
    and "\<not> IsNil (b_filter q)" and "filter (Matches (b_filter q)) (fst resp) = []"
  shows "fetchLoop q =
           fetchLoop (q\<lparr>b_log := b_log q @ [(b_serverPos q, 20, resp)],
                        b_serverPos := b_serverPos q + length (fst resp),
                        b_prefetched := []\<rparr>)"
  using fetchStep_page[OF assms(1-3) refl] assms(4,5) by (intro fetchLoop_Continue) simp

lemma fetchLoop_end:
  assumes "resp = b_fetcher q (length (b_log q)) (b_serverPos q) 20"
    and "snd resp \<noteq> None \<or> fst resp = []"
  shows "fetchLoop q =
           Some (ReturnNil, q\<lparr>b_log := b_log q @ [(b_serverPos q, 20, resp)], b_done := True\<rparr>)"
  using fetchStep_end[OF assms] by (intro fetchLoop_stop) simp_all

lemma calls_after_end:
  assumes nd: "\<not> b_done r" and ex: "length (b_prefetched r) \<le> b_prefetchedPos r"
    and loop: "fetchLoop (r\<lparr>b_prefetched := []\<rparr>) = Some (ReturnNil, s)"
  shows "calls baseIter_Next (Suc m) r = Some (replicate (Suc m) None, s)"
proof -
  from fetchLoop_exit[OF loop] have "b_done s" by simp
  from baseIter_done_calls[OF this, of m] baseIter_Next_fetch[OF nd ex] loop
  show ?thesis by simp
qed

lemma calls_one_page:
  assumes nd: "\<not> b_done r" and ex: "length (b_prefetched r) \<le> b_prefetchedPos r"
    and resp: "resp = b_fetcher r (length (b_log r)) (b_serverPos r) 20"
    and ok: "snd resp = None" "fst resp \<noteq> []"
    and kept: "kept = (if IsNil (b_filter r) then fst resp
                       else filter (Matches (b_filter r)) (fst resp))"
      "kept \<noteq> []"
  shows "\<exists>t. calls baseIter_Next (length kept) r = Some (kept, t) \<and>
             \<not> b_done t \<and> length (b_prefetched t) \<le> b_prefetchedPos t \<and>
             b_log t = b_log r @ [(b_serverPos r, 20, resp)] \<and>
             b_serverPos t = b_serverPos r + length (fst resp) \<and>
             b_fetcher t = b_fetcher r \<and> b_filter t = b_filter r"
proof -
  let ?q = "r\<lparr>b_prefetched := []\<rparr>"
  define s where "s = ?q\<lparr>b_log := b_log ?q @ [(b_serverPos ?q, 20, resp)],
                          b_serverPos := b_serverPos ?q + length (fst resp),
                          b_prefetched := kept\<rparr>"
  have "fetchLoop ?q = Some (Leave, s)"
    unfolding s_def using resp ok kept by (intro fetchLoop_page) simp_all
  from calls_page[OF nd ex this]
  have c: "calls baseIter_Next (length (b_prefetched s)) r =
           Some (b_prefetched s,
                 (spawnPrefetch (s\<lparr>b_prefetchedPos := 1\<rparr>))
                   \<lparr>b_prefetchedPos := length (b_prefetched s)\<rparr>)" .
  have f: "b_prefetched s = kept" "b_done s = b_done r"
    "b_log s = b_log r @ [(b_serverPos r, 20, resp)]"
    "b_serverPos s = b_serverPos r + length (fst resp)"
    "b_fetcher s = b_fetcher r" "b_filter s = b_filter r"
    by (simp_all add: s_def)
  let ?t = "(spawnPrefetch (s\<lparr>b_prefetchedPos := 1\<rparr>))\<lparr>b_prefetchedPos := length (b_prefetched s)\<rparr>"
  have "calls baseIter_Next (length kept) r = Some (kept, ?t)"
    using c by (simp only: f(1))
  moreover have "\<not> b_done ?t" "length (b_prefetched ?t) \<le> b_prefetchedPos ?t"
    "b_log ?t = b_log r @ [(b_serverPos r, 20, resp)]"
    "b_serverPos ?t = b_serverPos r + length (fst resp)"
    "b_fetcher ?t = b_fetcher r" "b_filter ?t = b_filter r"
    using f nd by (simp_all add: spawnPrefetch_fields)
  ultimately show ?thesis by (intro exI[of _ ?t]) (simp only: simp_thms)
qed

lemma calls_end:
  assumes nd: "\<not> b_done r" and ex: "length (b_prefetched r) \<le> b_prefetchedPos r"
    and resp: "resp = b_fetcher r (length (b_log r)) (b_serverPos r) 20"
    and e: "snd resp \<noteq> None \<or> fst resp = []"
  shows "\<exists>s. calls baseIter_Next (Suc m) r = Some (replicate (Suc m) None, s) \<and> b_done s \<and>
             b_log s = b_log r @ [(b_serverPos r, 20, resp)]"
proof -
  let ?q = "r\<lparr>b_prefetched := []\<rparr>"
  define s where "s = ?q\<lparr>b_log := b_log ?q @ [(b_serverPos ?q, 20, resp)], b_done := True\<rparr>"
  have "fetchLoop ?q = Some (ReturnNil, s)"
    unfolding s_def using resp e by (intro fetchLoop_end) simp_all
  from calls_after_end[OF nd ex this, of m]
  have "calls baseIter_Next (Suc m) r = Some (replicate (Suc m) None, s)" .
  moreover have "b_done s" "b_log s = b_log r @ [(b_serverPos r, 20, resp)]"
    by (simp_all add: s_def)
  ultimately show ?thesis by (intro exI[of _ s]) (simp only: simp_thms)
qed

text \<open>
  Claim C8. Let a generic iterator with a nil filter be made over a fetch function that
  answers the first fetch, at offset \<open>0\<close>, and the second, at offset \<open>20\<close>, with pages
  \<open>p1\<close> and \<open>p2\<close> of 20 items each, and the third, at offset \<open>40\<close>, with an empty page.
  Then the first 40 calls of \<open>Next\<close> return, and return the items of \<open>p1\<close> and then of
  \<open>p2\<close> in order; and any number of further calls return, each with the end-marker.
\<close>

theorem C8_two_full_pages_then_empty:
  assumes nil: "IsNil flt"
    and p1: "fetchFn 0 0 20 = (p1, None)" "length p1 = 20"
    and p2: "fetchFn 1 20 20 = (p2, None)" "length p2 = 20"
    and p3: "fetchFn 2 40 20 = ([], None)"
  shows "\<exists>r'. calls baseIter_Next 40 (newBaseIter flt fetchFn)
                 = Some (p1 @ p2, r') \<and>
              (\<forall>m. \<exists>r''. calls baseIter_Next (Suc m) r' = Some (replicate (Suc m) None, r''))"
proof -
  define r0 where "r0 = newBaseIter flt fetchFn"
  have r0: "\<not> b_done r0" "length (b_prefetched r0) \<le> b_prefetchedPos r0"
    "b_fetcher r0 = fetchFn" "b_filter r0 = flt" "b_log r0 = []" "b_serverPos r0 = 0"
    by (simp_all add: r0_def newBaseIter_def)
  from p1 p2 have ne: "p1 \<noteq> []" "p2 \<noteq> []" by auto
  have "\<exists>t. calls baseIter_Next (length p1) r0 = Some (p1, t) \<and>
             \<not> b_done t \<and> length (b_prefetched t) \<le> b_prefetchedPos t \<and>
             b_log t = b_log r0 @ [(b_serverPos r0, 20, (p1, None))] \<and>
             b_serverPos t = b_serverPos r0 + length (fst (p1, None :: error option)) \<and>
             b_fetcher t = b_fetcher r0 \<and> b_filter t = b_filter r0"
    using r0 p1(1) ne(1) nil by (intro calls_one_page) simp_all
  then obtain t1 where t1: "calls baseIter_Next 20 r0 = Some (p1, t1)"
    "\<not> b_done t1" "length (b_prefetched t1) \<le> b_prefetchedPos t1"
    "b_log t1 = [(0, 20, (p1, None))]" "b_serverPos t1 = 20"
    "b_fetcher t1 = fetchFn" "b_filter t1 = flt"
    using r0 p1(2) by auto
  have "\<exists>t. calls baseIter_Next (length p2) t1 = Some (p2, t) \<and>
             \<not> b_done t \<and> length (b_prefetched t) \<le> b_prefetchedPos t \<and>
             b_log t = b_log t1 @ [(b_serverPos t1, 20, (p2, None))] \<and>
             b_serverPos t = b_serverPos t1 + length (fst (p2, None :: error option)) \<and>
             b_fetcher t = b_fetcher t1 \<and> b_filter t = b_filter t1"
    using t1 p2(1) ne(2) nil by (intro calls_one_page) simp_all
  then obtain t2 where t2: "calls baseIter_Next 20 t1 = Some (p2, t2)"
    "\<not> b_done t2" "length (b_prefetched t2) \<le> b_prefetchedPos t2"
    "length (b_log t2) = 2" "b_serverPos t2 = 40" "b_fetcher t2 = fetchFn"
    using t1 p2(2) by auto
  have e: "\<exists>s. calls baseIter_Next (Suc m) t2 = Some (replicate (Suc m) None, s) \<and> b_done s \<and>
             b_log s = b_log t2 @ [(b_serverPos t2, 20, ([], None))]" for m
    using t2 p3 by (intro calls_end) simp_all
  have "calls baseIter_Next (20 + 20) r0 = Some (p1 @ p2, t2)"
    by (subst calls_add) (simp add: t1(1) t2(1))
  then have "calls baseIter_Next 40 r0 = Some (p1 @ p2, t2)" by simp
  moreover from e have "\<forall>m. \<exists>r''. calls baseIter_Next (Suc m) t2 = Some (replicate (Suc m) None, r'')"
    by blast
  ultimately show ?thesis unfolding r0_def by (intro exI[of _ t2] conjI)
qed

theorem C8_two_full_pages_then_empty_witness:
  "\<exists>r' r''. calls baseIter_Next 40
       (newBaseIter nilFilter
          (scripted [(map Some [0..<20], None), (map Some [20..<40], None)]))
       = Some (map Some [0..<20] @ map Some [20..<40], r') \<and>
     calls baseIter_Next 3 r' = Some ([None, None, None], r'')"
proof -
  define f where "f = scripted [(map Some [0..<20], None), (map Some [20..<40], None)]"
  have h: "IsNil (nilFilter :: nat option MediaFilter)" "f 0 0 20 = (map Some [0..<20], None)"
    "length (map Some [0..<20]) = 20"
    "f 1 20 20 = (map Some [20..<40], None)" "length (map Some [20..<40]) = 20"
    "f 2 40 20 = ([], None)"
    by (simp_all add: f_def scripted_def nilFilter_def)
  from C8_two_full_pages_then_empty[where flt = nilFilter and fetchFn = f
      and ?p1.0 = "map Some [0..<20]" and ?p2.0 = "map Some [20..<40]", OF h]
  obtain r' where a: "calls baseIter_Next 40 (newBaseIter nilFilter f)
                 = Some (map Some [0..<20] @ map Some [20..<40], r')"
    and b: "\<forall>m. \<exists>r''. calls baseIter_Next (Suc m) r' = Some (replicate (Suc m) None, r'')"
    by blast
  from b obtain r'' where "calls baseIter_Next (Suc 2) r' = Some (replicate (Suc 2) None, r'')"
    by blast
  then have "calls baseIter_Next 3 r' = Some ([None, None, None], r'')"
    by (simp add: numeral_3_eq_3 numeral_2_eq_2 del: calls.simps)
  with a show ?thesis unfolding f_def by (intro exI[of _ r'] exI[of _ r'']) simp
qed

section \<open>No false exhaustion\<close>

lemma fetchLoop_ReturnNil_empty:
  assumes run: "fetchLoop r = Some (ReturnNil, s)"
  shows "b_log s \<noteq> [] \<and> effectiveItems (last (b_log s)) = []"
proof -
  have "ReturnNil = ReturnNil \<longrightarrow> b_log s \<noteq> [] \<and> effectiveItems (last (b_log s)) = []"
  proof (rule fetchLoop_rule[OF run, where I = "\<lambda>_. True"
        and Q = "\<lambda>c s. c = ReturnNil \<longrightarrow> b_log s \<noteq> [] \<and> effectiveItems (last (b_log s)) = []"],
      goal_cases)
    case 1
    show ?case by simp
  next
    case (2 s d s')
    show ?case
    proof (cases s rule: fetchStep_cases)
      case (page_end resp)
      with 2 show ?thesis by (auto simp: effectiveItems_def)
    next
      case (page resp kept)
      with 2 show ?thesis by (auto split: if_splits)
    qed
  qed
  then show ?thesis by simp
qed

lemma baseIter_Next_result:
  assumes "baseIter_Next r = Some (Return (x, r'))" "\<not> b_done r"
  shows "if b_done r'
         then x = None \<and> b_log r' \<noteq> [] \<and> effectiveItems (last (b_log r')) = []
         else x \<in> set (b_prefetched r')"
  using assms(1)
proof (cases rule: baseIter_inversion)
  case finished
  with assms(2) show ?thesis by simp
next
  case buffered
  then show ?thesis by simp
next
  case (exhausted s)
  with fetchLoop_ReturnNil_empty[OF exhausted(3)] fetchLoop_exit[OF exhausted(3)]
  show ?thesis by simp
next
  case (fetched s)
  from fetchLoop_fields[OF fetched(3)] fetched(1) have "\<not> b_done s" by simp
  with fetched(4,5,6) show ?thesis by (simp add: spawnPrefetch_fields)
qed

text \<open>
  Claim C6. A call of \<open>Next\<close> on a generic iterator that is not done either leaves it
  done, and then it returns the end-marker after a fetch that returned an empty page or
  failed, or leaves it not done, and then it returns an element of the buffered page: a
  page of which the filter keeps nothing never ends the iteration. In the scenario of
  the claim (a filter that is not nil; a first page \<open>p1\<close>, not empty, of which the filter
  keeps nothing; a second page \<open>p2\<close> of which it keeps some items; an empty third page),
  the first call of \<open>Next\<close> issues two fetches, at offsets \<open>0\<close> and \<open>length p1\<close>, and returns
  the first kept item of \<open>p2\<close> without being done; the calls return all kept items of \<open>p2\<close>
  in order, and the call after them returns the end-marker and leaves the iterator done.
\<close>

theorem C6_no_false_exhaustion:
  "(baseIter_Next r = Some (Return (x, r')) \<and> \<not> b_done r \<longrightarrow>
      (if b_done r'
       then x = None \<and> b_log r' \<noteq> [] \<and> effectiveItems (last (b_log r')) = []
       else x \<in> set (b_prefetched r'))) \<and>
   (\<not> IsNil flt \<and>
    fetchFn 0 0 20 = (p1, None) \<and> p1 \<noteq> [] \<and> filter (Matches flt) p1 = [] \<and>
    fetchFn 1 (length p1) 20 = (p2, None) \<and> filter (Matches flt) p2 \<noteq> [] \<and>
    fetchFn 2 (length p1 + length p2) 20 = ([], None) \<longrightarrow>
      (\<exists>r1 r2.
         baseIter_Next (newBaseIter flt fetchFn)
           = Some (Return (filter (Matches flt) p2 ! 0, r1)) \<and> \<not> b_done r1 \<and>
         map fetchOffset (b_log r1) = [0, length p1] \<and>
         calls baseIter_Next (length (filter (Matches flt) p2) + 1) (newBaseIter flt fetchFn)
           = Some (filter (Matches flt) p2 @ [None], r2) \<and>
         b_done r2))"
proof (intro conjI impI)
  assume "baseIter_Next r = Some (Return (x, r')) \<and> \<not> b_done r"
  then show "if b_done r'
       then x = None \<and> b_log r' \<noteq> [] \<and> effectiveItems (last (b_log r')) = []
       else x \<in> set (b_prefetched r')"
    using baseIter_Next_result[of r x r'] by simp
next
  assume a: "\<not> IsNil flt \<and>
    fetchFn 0 0 20 = (p1, None) \<and> p1 \<noteq> [] \<and> filter (Matches flt) p1 = [] \<and>
    fetchFn 1 (length p1) 20 = (p2, None) \<and> filter (Matches flt) p2 \<noteq> [] \<and>
    fetchFn 2 (length p1 + length p2) 20 = ([], None)"
  define kept where "kept = filter (Matches flt) p2"
  define r0 where "r0 = newBaseIter flt fetchFn"
  define q1 where "q1 = r0\<lparr>b_log := [(0, 20, (p1, None))], b_serverPos := length p1,
                          b_prefetched := []\<rparr>"
  define s2 where "s2 = q1\<lparr>b_log := [(0, 20, (p1, None)), (length p1, 20, (p2, None))],
                          b_serverPos := length p1 + length p2, b_prefetched := kept\<rparr>"
  have r0: "\<not> b_done r0" "length (b_prefetched r0) \<le> b_prefetchedPos r0"
    "r0\<lparr>b_prefetched := []\<rparr> = r0"
    by (simp_all add: r0_def newBaseIter_def)
  have p2ne: "p2 \<noteq> []" using a by auto
  have "fetchLoop r0 = fetchLoop q1"
    unfolding q1_def using a fetchLoop_skip[of "(p1, None)" r0]
    by (simp add: r0_def newBaseIter_def)
  moreover have "fetchLoop q1 = Some (Leave, s2)"
    unfolding s2_def using a p2ne fetchLoop_page[of "(p2, None)" q1 kept]
    by (simp add: q1_def r0_def newBaseIter_def kept_def)
  ultimately have loop: "fetchLoop (r0\<lparr>b_prefetched := []\<rparr>) = Some (Leave, s2)"
    using r0(3) by simp
  have s2: "b_prefetched s2 = kept" "\<not> b_done s2"
    "b_log s2 = [(0, 20, (p1, None)), (length p1, 20, (p2, None))]"
    "b_serverPos s2 = length p1 + length p2" "b_fetcher s2 = fetchFn"
    by (simp_all add: s2_def q1_def r0_def newBaseIter_def)
  let ?r1 = "spawnPrefetch (s2\<lparr>b_prefetchedPos := 1\<rparr>)"
  define t where "t = ?r1\<lparr>b_prefetchedPos := length (b_prefetched s2)\<rparr>"
  have first: "baseIter_Next r0 = Some (Return (kept ! 0, ?r1))"
    using baseIter_Next_fetch[OF r0(1,2)] loop s2(1) by simp
  have log1: "map fetchOffset (b_log ?r1) = [0, length p1]"
    using s2(3) by (simp add: spawnPrefetch_fields fetchOffset_def)
  from calls_page[OF r0(1,2) loop] s2(1)
  have c1: "calls baseIter_Next (length kept) r0 = Some (kept, t)"
    unfolding t_def by simp
  have t: "\<not> b_done t" "length (b_prefetched t) \<le> b_prefetchedPos t"
    "b_fetcher t (length (b_log t)) (b_serverPos t) 20 = ([], None)"
    using s2 a by (simp_all add: t_def spawnPrefetch_fields numeral_2_eq_2)
  from calls_end[OF t(1,2) refl, of 0] t(3) obtain r2 where
    c2: "calls baseIter_Next (Suc 0) t = Some ([None], r2)" and d: "b_done r2"
    by auto
  have run: "calls baseIter_Next (length kept + 1) r0 = Some (kept @ [None], r2)"
    by (subst calls_add) (simp add: c1 c2 del: calls.simps)
  have nd1: "\<not> b_done ?r1" using s2(2) by (simp add: spawnPrefetch_fields)
  with first log1 d run show "\<exists>r1 r2.
         baseIter_Next (newBaseIter flt fetchFn)
           = Some (Return (filter (Matches flt) p2 ! 0, r1)) \<and> \<not> b_done r1 \<and>
         map fetchOffset (b_log r1) = [0, length p1] \<and>
         calls baseIter_Next (length (filter (Matches flt) p2) + 1) (newBaseIter flt fetchFn)
           = Some (filter (Matches flt) p2 @ [None], r2) \<and>
         b_done r2"
    unfolding r0_def kept_def
    by - (rule exI[of _ ?r1], rule exI[of _ r2], simp only: simp_thms)
qed

theorem C6_no_false_exhaustion_witness:
  "(\<exists>r'. baseIter_Next (newBaseIter nilFilter (scripted [] :: nat option fetchFn))
            = Some (Return (None, r')) \<and>
          b_done r' \<and> b_log r' \<noteq> [] \<and> effectiveItems (last (b_log r')) = []) \<and>
   (\<exists>r1 r2.
      baseIter_Next
        (newBaseIter
           \<lparr>IsNil = False, Matches = (\<lambda>p. case p of None \<Rightarrow> False | Some (n::nat) \<Rightarrow> 10 \<le> n)\<rparr>
           (scripted [([Some 1, Some 2, Some 3], None), ([Some 11, Some 5, Some 12], None)]))
        = Some (Return (Some 11, r1)) \<and>
      \<not> b_done r1 \<and>
      map fetchOffset (b_log r1) = [0, 3] \<and>
      calls baseIter_Next 3
        (newBaseIter
           \<lparr>IsNil = False, Matches = (\<lambda>p. case p of None \<Rightarrow> False | Some (n::nat) \<Rightarrow> 10 \<le> n)\<rparr>
           (scripted [([Some 1, Some 2, Some 3], None), ([Some 11, Some 5, Some 12], None)]))
        = Some ([Some 11, Some 12, None], r2) \<and>
      b_done r2)"
proof -
  define flt where
    "flt = \<lparr>IsNil = False, Matches = (\<lambda>p. case p of None \<Rightarrow> False | Some (n::nat) \<Rightarrow> 10 \<le> n)\<rparr>"
  define p1 where "p1 = [Some 1, Some 2, Some (3 :: nat)]"
  define p2 where "p2 = [Some 11, Some 5, Some (12 :: nat)]"
  define f where "f = scripted [(p1, None), (p2, None)]"
  define e where "e = newBaseIter nilFilter (scripted [] :: nat option fetchFn)"
  obtain r' where e1: "baseIter_Next e = Some (Return (None, r'))" and e2: "\<not> b_done e"
    and e3: "b_done r'"
    by (simp add: e_def base_run_simps)
  from C6_no_false_exhaustion[THEN conjunct1, of e None r'] e1 e2 e3
  have a: "b_log r' \<noteq> [] \<and> effectiveItems (last (b_log r')) = []" by simp
  have h: "\<not> IsNil flt \<and>
    f 0 0 20 = (p1, None) \<and> p1 \<noteq> [] \<and> filter (Matches flt) p1 = [] \<and>
    f 1 (length p1) 20 = (p2, None) \<and> filter (Matches flt) p2 \<noteq> [] \<and>
    f 2 (length p1 + length p2) 20 = ([], None)"
    by (simp add: flt_def f_def scripted_def p1_def p2_def)
  have k: "filter (Matches flt) p2 = [Some 11, Some 12]" "length p1 = 3"
    by (simp_all add: flt_def p1_def p2_def)
  from C6_no_false_exhaustion[THEN conjunct2, of flt f p1 p2] h
  have "\<exists>r1 r2.
         baseIter_Next (newBaseIter flt f)
           = Some (Return (filter (Matches flt) p2 ! 0, r1)) \<and> \<not> b_done r1 \<and>
         map fetchOffset (b_log r1) = [0, length p1] \<and>
         calls baseIter_Next (length (filter (Matches flt) p2) + 1) (newBaseIter flt f)
           = Some (filter (Matches flt) p2 @ [None], r2) \<and>
         b_done r2"
    by blast
  then have b: "\<exists>r1 r2.
         baseIter_Next (newBaseIter flt f) = Some (Return (Some 11, r1)) \<and> \<not> b_done r1 \<and>
         map fetchOffset (b_log r1) = [0, 3] \<and>
         calls baseIter_Next 3 (newBaseIter flt f) = Some ([Some 11, Some 12, None], r2) \<and>
         b_done r2"
    unfolding k by (simp add: numeral_3_eq_3 del: calls.simps)
  from e1 e3 a have "\<exists>r'. baseIter_Next e = Some (Return (None, r')) \<and> b_done r' \<and>
          b_log r' \<noteq> [] \<and> effectiveItems (last (b_log r')) = []"
    by (intro exI[of _ r']) simp
  with b show ?thesis unfolding e_def flt_def f_def p1_def p2_def by (intro conjI)
qed

section \<open>The results depend on the responses only\<close>

lemma answersAs_iff:
  "answersAs g start L \<longleftrightarrow>
     (\<forall>k. start \<le> k \<and> k < length L \<longrightarrow>
        g k (fetchOffset (L ! k)) (fetchLimit (L ! k)) = snd (snd (L ! k)))"
  by (auto simp: answersAs_def list_all_iff)

lemma answersAsBoth_iff:
  "answersAsBoth gd gr start L \<longleftrightarrow>
     (\<forall>k. start \<le> k \<and> k < length L \<longrightarrow>
        (case fst (L ! k) of DeterministicFetcher \<Rightarrow> gd | RandomFetcher \<Rightarrow> gr)
          k (fst (snd (L ! k))) (fst (snd (snd (L ! k))))
        = snd (snd (snd (L ! k))))"
  by (auto simp: answersAsBoth_def list_all_iff)

lemma withFetchers_fields [simp]:
  "r_filter (withFetchers gd gr r) = r_filter r"
  "r_prefetchCB (withFetchers gd gr r) = r_prefetchCB r"
  "r_albumIDSet (withFetchers gd gr r) = r_albumIDSet r"
  "r_prefetched (withFetchers gd gr r) = r_prefetched r"
  "r_prefetchedPos (withFetchers gd gr r) = r_prefetchedPos r"
  "r_deterministicFetcher (withFetchers gd gr r) = gd"
  "r_ramdomFetcher (withFetchers gd gr r) = gr"
  "r_phaseTwo (withFetchers gd gr r) = r_phaseTwo r"
  "r_offset (withFetchers gd gr r) = r_offset r"
  "r_done (withFetchers gd gr r) = r_done r"
  "r_log (withFetchers gd gr r) = r_log r"
  "r_spawned (withFetchers gd gr r) = r_spawned r"
  by (simp_all add: withFetchers_def)

lemma withFetchers_updates:
  "withFetchers gd gr (appendPrefetched r a) = appendPrefetched (withFetchers gd gr r) a"
  "withFetchers gd gr (r\<lparr>r_albumIDSet := m\<rparr>) = (withFetchers gd gr r)\<lparr>r_albumIDSet := m\<rparr>"
  "withFetchers gd gr (r\<lparr>r_log := L\<rparr>) = (withFetchers gd gr r)\<lparr>r_log := L\<rparr>"
  "withFetchers gd gr (r\<lparr>r_offset := k\<rparr>) = (withFetchers gd gr r)\<lparr>r_offset := k\<rparr>"
  "withFetchers gd gr (r\<lparr>r_phaseTwo := b\<rparr>) = (withFetchers gd gr r)\<lparr>r_phaseTwo := b\<rparr>"
  "withFetchers gd gr (r\<lparr>r_done := b\<rparr>) = (withFetchers gd gr r)\<lparr>r_done := b\<rparr>"
  "withFetchers gd gr (r\<lparr>r_prefetched := xs\<rparr>) = (withFetchers gd gr r)\<lparr>r_prefetched := xs\<rparr>"
  "withFetchers gd gr (r\<lparr>r_prefetchedPos := k\<rparr>) = (withFetchers gd gr r)\<lparr>r_prefetchedPos := k\<rparr>"
  by (simp_all add: withFetchers_def appendPrefetched_def)

lemma phaseTwoScan_withFetchers:
  "phaseTwoScan (withFetchers gd gr r) albums = withFetchers gd gr (phaseTwoScan r albums)"
  by (induction albums arbitrary: r) (simp_all add: withFetchers_updates[symmetric])

lemma phaseOneScan_withFetchers:
  "phaseOneScan (withFetchers gd gr r) h albums =
     (withFetchers gd gr (fst (phaseOneScan r h albums)), snd (phaseOneScan r h albums))"
  by (induction albums arbitrary: r h) (simp_all add: withFetchers_updates[symmetric] Let_def)

lemma answersAs_prefix: "answersAs g start (L @ L') \<Longrightarrow> answersAs g start L"
  unfolding answersAs_iff
proof (intro allI impI)
  fix k
  assume a: "\<forall>k. start \<le> k \<and> k < length (L @ L') \<longrightarrow>
      g k (fetchOffset ((L @ L') ! k)) (fetchLimit ((L @ L') ! k)) = snd (snd ((L @ L') ! k))"
    and k: "start \<le> k \<and> k < length L"
  then have "g k (fetchOffset ((L @ L') ! k)) (fetchLimit ((L @ L') ! k)) = snd (snd ((L @ L') ! k))"
    by simp
  with k show "g k (fetchOffset (L ! k)) (fetchLimit (L ! k)) = snd (snd (L ! k))"
    by (simp add: nth_append)
qed

lemma answersAs_later: "answersAs g start L \<Longrightarrow> start \<le> start' \<Longrightarrow> answersAs g start' L"
  by (simp add: answersAs_iff)

lemma answersAs_first:
  "answersAs g (length L) (L @ (offset, limit, resp) # L') \<Longrightarrow> g (length L) offset limit = resp"
  by (auto simp: answersAs_iff fetchOffset_def fetchLimit_def dest!: spec[of _ "length L"])

lemma withFetcher_fields [simp]:
  "b_filter (withFetcher g r) = b_filter r"
  "b_prefetchCB (withFetcher g r) = b_prefetchCB r"
  "b_serverPos (withFetcher g r) = b_serverPos r"
  "b_fetcher (withFetcher g r) = g"
  "b_prefetched (withFetcher g r) = b_prefetched r"
  "b_prefetchedPos (withFetcher g r) = b_prefetchedPos r"
  "b_done (withFetcher g r) = b_done r"
  "b_log (withFetcher g r) = b_log r"
  "b_spawned (withFetcher g r) = b_spawned r"
  by (simp_all add: withFetcher_def)

lemma withFetcher_updates:
  "withFetcher g (r\<lparr>b_prefetched := xs\<rparr>) = (withFetcher g r)\<lparr>b_prefetched := xs\<rparr>"
  "withFetcher g (r\<lparr>b_prefetchedPos := k\<rparr>) = (withFetcher g r)\<lparr>b_prefetchedPos := k\<rparr>"
  "withFetcher g (spawnPrefetch r) = spawnPrefetch (withFetcher g r)"
  by (simp_all add: withFetcher_def spawnPrefetch_def split: option.splits)

lemma fetchStep_log:
  "b_log (snd (fetchStep r)) =
     b_log r @ [(b_serverPos r, 20, b_fetcher r (length (b_log r)) (b_serverPos r) 20)]"
  by (cases r rule: fetchStep_cases) simp_all

lemma fetchStep_withFetcher:
  assumes "g (length (b_log r)) (b_serverPos r) 20 =
             b_fetcher r (length (b_log r)) (b_serverPos r) 20"
  shows "fetchStep (withFetcher g r) = (fst (fetchStep r), withFetcher g (snd (fetchStep r)))"
  using assms by (simp add: fetchStep_def Let_def withFetcher_def)

lemma fetchLoop_withFetcher:
  assumes run: "fetchLoop r = Some y"
  shows "(\<exists>L'. b_log (snd y) = b_log r @ L') \<and>
         (answersAs g (length (b_log r)) (b_log (snd y)) \<longrightarrow>
            fetchLoop (withFetcher g r) = Some (fst y, withFetcher g (snd y)))"
proof (rule fetchLoop.raw_induct[where P = "\<lambda>r y. (\<exists>L'. b_log (snd y) = b_log r @ L') \<and>
         (answersAs g (length (b_log r)) (b_log (snd y)) \<longrightarrow>
            fetchLoop (withFetcher g r) = Some (fst y, withFetcher g (snd y)))", OF _ run],
    goal_cases)
  case (1 loop r y)
  obtain d r1 where st: "fetchStep r = (d, r1)" by (cases "fetchStep r")
  let ?e = "(b_serverPos r, 20, b_fetcher r (length (b_log r)) (b_serverPos r) 20)"
  from fetchStep_log[of r] st have log1: "b_log r1 = b_log r @ [?e]" by simp
  show ?case
  proof (cases "d = Continue")
    case True
    with 1(2) st have "loop r1 = Some y" by simp
    from 1(1)[OF this] obtain L' where L': "b_log (snd y) = b_log r1 @ L'"
      and ih: "answersAs g (length (b_log r1)) (b_log (snd y)) \<longrightarrow>
            fetchLoop (withFetcher g r1) = Some (fst y, withFetcher g (snd y))"
      by blast
    from L' log1 have full: "b_log (snd y) = b_log r @ ?e # L'" by simp
    have "fetchLoop (withFetcher g r) = Some (fst y, withFetcher g (snd y))"
      if a: "answersAs g (length (b_log r)) (b_log (snd y))"
    proof -
      from a full have "g (length (b_log r)) (b_serverPos r) 20 =
          b_fetcher r (length (b_log r)) (b_serverPos r) 20"
        using answersAs_first[of g "b_log r" "b_serverPos r" 20 _ L'] by simp
      from fetchStep_withFetcher[of g r, OF this] st True
      have "fetchStep (withFetcher g r) = (Continue, withFetcher g r1)" by simp
      then have "fetchLoop (withFetcher g r) = fetchLoop (withFetcher g r1)"
        by (rule fetchLoop_Continue)
      moreover from a log1 have "answersAs g (length (b_log r1)) (b_log (snd y))"
        by (intro answersAs_later[OF a]) simp
      ultimately show ?thesis using ih by simp
    qed
    with full show ?thesis by blast
  next
    case False
    with 1(2) st have y: "y = (d, r1)" by (cases d) auto
    have "fetchLoop (withFetcher g r) = Some (fst y, withFetcher g (snd y))"
      if a: "answersAs g (length (b_log r)) (b_log (snd y))"
    proof -
      from a y log1 have "g (length (b_log r)) (b_serverPos r) 20 =
          b_fetcher r (length (b_log r)) (b_serverPos r) 20"
        using answersAs_first[of g "b_log r" "b_serverPos r" 20 _ "[]"] by simp
      from fetchStep_withFetcher[of g r, OF this] st
      have "fetchStep (withFetcher g r) = (d, withFetcher g r1)" by simp
      from fetchLoop_stop[OF this False] y show ?thesis by simp
    qed
    with y log1 show ?thesis by simp
  qed
qed

lemma baseIter_Next_withFetcher:
  assumes nx: "baseIter_Next r = Some (Return (x, r'))"
  shows "(\<exists>L'. b_log r' = b_log r @ L') \<and>
         (answersAs g (length (b_log r)) (b_log r') \<longrightarrow>
            baseIter_Next (withFetcher g r) = Some (Return (x, withFetcher g r')))"
  using nx
proof (cases rule: baseIter_inversion)
  case finished
  then show ?thesis by (simp add: baseIter_Next_done)
next
  case buffered
  then show ?thesis by (simp add: baseIter_Next_buffered withFetcher_updates)
next
  case (exhausted s)
  from fetchLoop_withFetcher[OF exhausted(3), of g] exhausted(1,2,4,5)
  show ?thesis
    by (auto simp: baseIter_Next_fetch withFetcher_updates[symmetric])
next
  case (fetched s)
  from fetchLoop_withFetcher[OF fetched(3), of g] fetched(1,2,4,5,6)
  show ?thesis
    by (auto simp: baseIter_Next_fetch withFetcher_updates[symmetric] simp del: One_nat_def)
qed

lemma calls_baseIter_withFetcher:
  assumes "calls baseIter_Next n r = Some (outs, r')"
  shows "(\<exists>L'. b_log r' = b_log r @ L') \<and>
         (answersAs g (length (b_log r)) (b_log r') \<longrightarrow>
            calls baseIter_Next n (withFetcher g r) = Some (outs, withFetcher g r'))"
  using assms
proof (induction n arbitrary: r outs)
  case 0
  then show ?case by simp
next
  case (Suc n)
  from Suc.prems obtain x r1 xs where
    n1: "baseIter_Next r = Some (Return (x, r1))" and rest: "calls baseIter_Next n r1 = Some (xs, r')"
    and outs: "outs = x # xs"
    by (auto split: option.splits outcome.splits prod.splits)
  from baseIter_Next_withFetcher[OF n1, of g] obtain L1 where L1: "b_log r1 = b_log r @ L1"
    and s1: "answersAs g (length (b_log r)) (b_log r1) \<longrightarrow>
            baseIter_Next (withFetcher g r) = Some (Return (x, withFetcher g r1))"
    by blast
  from Suc.IH[OF rest] obtain L2 where L2: "b_log r' = b_log r1 @ L2"
    and s2: "answersAs g (length (b_log r1)) (b_log r') \<longrightarrow>
            calls baseIter_Next n (withFetcher g r1) = Some (xs, withFetcher g r')"
    by blast
  have "calls baseIter_Next (Suc n) (withFetcher g r) = Some (outs, withFetcher g r')"
    if a: "answersAs g (length (b_log r)) (b_log r')"
  proof -
    from a L2 have "answersAs g (length (b_log r)) (b_log r1)"
      using answersAs_prefix[of g _ "b_log r1" L2] by simp
    with s1 have "baseIter_Next (withFetcher g r) = Some (Return (x, withFetcher g r1))" by simp
    moreover from a L1 have "answersAs g (length (b_log r1)) (b_log r')"
      by (intro answersAs_later[OF a]) simp
    with s2 have "calls baseIter_Next n (withFetcher g r1) = Some (xs, withFetcher g r')" by simp
    ultimately show ?thesis by (simp add: outs)
  qed
  with L1 L2 show ?case by simp
qed

lemma answersAsBoth_prefix: "answersAsBoth gd gr start (L @ L') \<Longrightarrow> answersAsBoth gd gr start L"
  unfolding answersAsBoth_iff
proof (intro allI impI)
  fix k
  assume a: "\<forall>k. start \<le> k \<and> k < length (L @ L') \<longrightarrow>
      (case fst ((L @ L') ! k) of DeterministicFetcher \<Rightarrow> gd | RandomFetcher \<Rightarrow> gr)
          k (fst (snd ((L @ L') ! k))) (fst (snd (snd ((L @ L') ! k))))
        = snd (snd (snd ((L @ L') ! k)))"
    and k: "start \<le> k \<and> k < length L"
  then have "(case fst ((L @ L') ! k) of DeterministicFetcher \<Rightarrow> gd | RandomFetcher \<Rightarrow> gr)
          k (fst (snd ((L @ L') ! k))) (fst (snd (snd ((L @ L') ! k))))
        = snd (snd (snd ((L @ L') ! k)))"
    by simp
  with k show "(case fst (L ! k) of DeterministicFetcher \<Rightarrow> gd | RandomFetcher \<Rightarrow> gr)
          k (fst (snd (L ! k))) (fst (snd (snd (L ! k))))
        = snd (snd (snd (L ! k)))"
    by (simp add: nth_append)
qed

lemma answersAsBoth_later:
  "answersAsBoth gd gr start L \<Longrightarrow> start \<le> start' \<Longrightarrow> answersAsBoth gd gr start' L"
  by (simp add: answersAsBoth_iff)

lemma answersAsBoth_first:
  "answersAsBoth gd gr (length L) (L @ (which, offset, limit, resp) # L') \<Longrightarrow>
     (case which of DeterministicFetcher \<Rightarrow> gd | RandomFetcher \<Rightarrow> gr) (length L) offset limit = resp"
  by (auto simp: answersAsBoth_iff dest!: spec[of _ "length L"])

lemma fillStep_log: "r_log (snd (fillStep r)) = r_log r @ [nextFetch r]"
proof (cases r rule: fillStep_cases)
  case (two_end resp)
  then show ?thesis by (simp add: nextFetch_def)
next
  case (two_page resp)
  then show ?thesis by (simp add: nextFetch_def phaseTwoScan_fields)
next
  case (one_err resp)
  then show ?thesis by (simp add: nextFetch_def)
next
  case (one_batch resp r2 hitCount)
  from phaseOneScan_fields[OF one_batch(4)] one_batch(1,2,5)
  show ?thesis by (auto simp: nextFetch_def split: if_splits)
qed

lemma fillStep_withFetchers:
  assumes "snd (snd (snd (nextFetch (withFetchers gd gr r)))) = snd (snd (snd (nextFetch r)))"
  shows "fillStep (withFetchers gd gr r) = (fst (fillStep r), withFetchers gd gr (snd (fillStep r)))"
proof (cases "r_phaseTwo r")
  case True
  with assms have eq: "gd (length (r_log r)) (r_offset r) 25 =
      r_deterministicFetcher r (length (r_log r)) (r_offset r) 25"
    by (simp add: nextFetch_def)
  show ?thesis
    using True eq
    by (simp add: fillStep_def Let_def phaseTwoScan_withFetchers withFetchers_updates[symmetric])
next
  case False
  with assms have eq: "gr (length (r_log r)) 0 25 = r_ramdomFetcher r (length (r_log r)) 0 25"
    by (simp add: nextFetch_def)
  show ?thesis
    using False eq
    by (simp add: fillStep_def Let_def phaseOneScan_withFetchers withFetchers_updates[symmetric])
qed

lemma nextFetch_agree:
  assumes "answersAsBoth gd gr (length (r_log r)) (r_log r @ nextFetch r # L')"
  shows "snd (snd (snd (nextFetch (withFetchers gd gr r)))) = snd (snd (snd (nextFetch r)))"
proof (cases "r_phaseTwo r")
  case True
  then have "nextFetch r = (DeterministicFetcher, r_offset r, 25,
      r_deterministicFetcher r (length (r_log r)) (r_offset r) 25)"
    by (simp add: nextFetch_def)
  with answersAsBoth_first[of gd gr "r_log r" DeterministicFetcher "r_offset r" 25 _ L'] assms True
  show ?thesis by (simp add: nextFetch_def)
next
  case False
  then have "nextFetch r = (RandomFetcher, 0, 25, r_ramdomFetcher r (length (r_log r)) 0 25)"
    by (simp add: nextFetch_def)
  with answersAsBoth_first[of gd gr "r_log r" RandomFetcher 0 25 _ L'] assms False
  show ?thesis by (simp add: nextFetch_def)
qed

lemma fillLoop_Leave: "r_prefetched r \<noteq> [] \<Longrightarrow> fillLoop r = Some (Leave, r)"
  by (subst fillLoop.simps) simp

lemma fillLoop_ReturnNil:
  "r_prefetched r = [] \<Longrightarrow> fillStep r = (ReturnNil, s) \<Longrightarrow> fillLoop r = Some (ReturnNil, s)"
  by (subst fillLoop.simps) simp

lemma fillLoop_again:
  "r_prefetched r = [] \<Longrightarrow> fillStep r = (d, s) \<Longrightarrow> d \<noteq> ReturnNil \<Longrightarrow> fillLoop r = fillLoop s"
  by (subst fillLoop.simps) (cases d; simp)

lemma fillLoop_withFetchers:
  assumes run: "fillLoop r = Some y"
  shows "(\<exists>L'. r_log (snd y) = r_log r @ L') \<and>
         (answersAsBoth gd gr (length (r_log r)) (r_log (snd y)) \<longrightarrow>
            fillLoop (withFetchers gd gr r) = Some (fst y, withFetchers gd gr (snd y)))"
proof (rule fillLoop.raw_induct[where P = "\<lambda>r y. (\<exists>L'. r_log (snd y) = r_log r @ L') \<and>
         (answersAsBoth gd gr (length (r_log r)) (r_log (snd y)) \<longrightarrow>
            fillLoop (withFetchers gd gr r) = Some (fst y, withFetchers gd gr (snd y)))", OF _ run],
    goal_cases)
  case (1 loop r y)
  show ?case
  proof (cases "r_prefetched r = []")
    case False
    with 1(2) have y: "y = (Leave, r)" by simp
    from False have "fillLoop (withFetchers gd gr r) = Some (Leave, withFetchers gd gr r)"
      by (intro fillLoop_Leave) simp
    with y show ?thesis by simp
  next
    case empty: True
    obtain d r1 where st: "fillStep r = (d, r1)" by (cases "fillStep r")
    from fillStep_log[of r] st have log1: "r_log r1 = r_log r @ [nextFetch r]" by simp
    show ?thesis
    proof (cases "d = ReturnNil")
      case True
      with 1(2) st empty have y: "y = (ReturnNil, r1)" by simp
      have "fillLoop (withFetchers gd gr r) = Some (fst y, withFetchers gd gr (snd y))"
        if a: "answersAsBoth gd gr (length (r_log r)) (r_log (snd y))"
      proof -
        from a y log1 have "answersAsBoth gd gr (length (r_log r)) (r_log r @ nextFetch r # [])"
          by simp
        from fillStep_withFetchers[OF nextFetch_agree[OF this]] st True
        have "fillStep (withFetchers gd gr r) = (ReturnNil, withFetchers gd gr r1)" by simp
        with empty have "fillLoop (withFetchers gd gr r) = Some (ReturnNil, withFetchers gd gr r1)"
          by (intro fillLoop_ReturnNil) simp_all
        with y show ?thesis by simp
      qed
      with y log1 show ?thesis by simp
    next
      case False
      with 1(2) st empty have "loop r1 = Some y" by (cases d) auto
      from 1(1)[OF this] obtain L' where L': "r_log (snd y) = r_log r1 @ L'"
        and ih: "answersAsBoth gd gr (length (r_log r1)) (r_log (snd y)) \<longrightarrow>
              fillLoop (withFetchers gd gr r1) = Some (fst y, withFetchers gd gr (snd y))"
        by blast
      from L' log1 have full: "r_log (snd y) = r_log r @ nextFetch r # L'" by simp
      have "fillLoop (withFetchers gd gr r) = Some (fst y, withFetchers gd gr (snd y))"
        if a: "answersAsBoth gd gr (length (r_log r)) (r_log (snd y))"
      proof -
        from a full have "answersAsBoth gd gr (length (r_log r)) (r_log r @ nextFetch r # L')"
          by simp
        from fillStep_withFetchers[OF nextFetch_agree[OF this]] st
        have "fillStep (withFetchers gd gr r) = (d, withFetchers gd gr r1)" by simp
        with empty False have "fillLoop (withFetchers gd gr r) = fillLoop (withFetchers gd gr r1)"
          by (intro fillLoop_again[where d = d]) simp_all
        moreover from a log1 have "answersAsBoth gd gr (length (r_log r1)) (r_log (snd y))"
          by (intro answersAsBoth_later[OF a]) simp
        ultimately show ?thesis using ih by simp
      qed
      with full show ?thesis by blast
    qed
  qed
qed

lemma randomAlbumIter_Next_withFetchers:
  assumes nx: "randomAlbumIter_Next r = Some (Return (x, r'))"
  shows "(\<exists>L'. r_log r' = r_log r @ L') \<and>
         (answersAsBoth gd gr (length (r_log r)) (r_log r') \<longrightarrow>
            randomAlbumIter_Next (withFetchers gd gr r) = Some (Return (x, withFetchers gd gr r')))"
proof (cases "r_done r")
  case True
  with nx show ?thesis by (simp add: randomAlbumIter_Next_def)
next
  case nd: False
  from nx nd obtain c s where loop: "fillLoop r = Some (c, s)"
    by (auto simp: randomAlbumIter_Next_def split: option.splits)
  from fillLoop_withFetchers[OF loop, of gd gr] obtain L' where
    L': "r_log s = r_log r @ L'"
    and sim: "answersAsBoth gd gr (length (r_log r)) (r_log s) \<longrightarrow>
            fillLoop (withFetchers gd gr r) = Some (c, withFetchers gd gr s)"
    by auto
  from nx nd loop have log': "r_log r' = r_log s"
    by (auto simp: randomAlbumIter_Next_def Let_def split: control.splits if_splits)
  have "randomAlbumIter_Next (withFetchers gd gr r) = Some (Return (x, withFetchers gd gr r'))"
    if a: "answersAsBoth gd gr (length (r_log r)) (r_log r')"
  proof -
    from a log' sim have "fillLoop (withFetchers gd gr r) = Some (c, withFetchers gd gr s)"
      by simp
    with nx nd loop show ?thesis
      by (auto simp: randomAlbumIter_Next_def Let_def withFetchers_updates
          split: control.splits if_splits)
  qed
  with L' log' show ?thesis by simp
qed

lemma calls_randomAlbumIter_withFetchers:
  assumes "calls randomAlbumIter_Next n r = Some (outs, r')"
  shows "(\<exists>L'. r_log r' = r_log r @ L') \<and>
         (answersAsBoth gd gr (length (r_log r)) (r_log r') \<longrightarrow>
            calls randomAlbumIter_Next n (withFetchers gd gr r) = Some (outs, withFetchers gd gr r'))"
  using assms
proof (induction n arbitrary: r outs)
  case 0
  then show ?case by simp
next
  case (Suc n)
  from Suc.prems obtain x r1 xs where
    n1: "randomAlbumIter_Next r = Some (Return (x, r1))"
    and rest: "calls randomAlbumIter_Next n r1 = Some (xs, r')"
    and outs: "outs = x # xs"
    by (auto split: option.splits outcome.splits prod.splits)
  from randomAlbumIter_Next_withFetchers[OF n1, of gd gr] obtain L1 where
    L1: "r_log r1 = r_log r @ L1"
    and s1: "answersAsBoth gd gr (length (r_log r)) (r_log r1) \<longrightarrow>
            randomAlbumIter_Next (withFetchers gd gr r) = Some (Return (x, withFetchers gd gr r1))"
    by blast
  from Suc.IH[OF rest] obtain L2 where L2: "r_log r' = r_log r1 @ L2"
    and s2: "answersAsBoth gd gr (length (r_log r1)) (r_log r') \<longrightarrow>
            calls randomAlbumIter_Next n (withFetchers gd gr r1) = Some (xs, withFetchers gd gr r')"
    by blast
  have "calls randomAlbumIter_Next (Suc n) (withFetchers gd gr r)
          = Some (outs, withFetchers gd gr r')"
    if a: "answersAsBoth gd gr (length (r_log r)) (r_log r')"
  proof -
    from a L2 have "answersAsBoth gd gr (length (r_log r)) (r_log r1)"
      using answersAsBoth_prefix[of gd gr _ "r_log r1" L2] by simp
    with s1 have "randomAlbumIter_Next (withFetchers gd gr r)
        = Some (Return (x, withFetchers gd gr r1))" by simp
    moreover from a L1 have "answersAsBoth gd gr (length (r_log r1)) (r_log r')"
      by (intro answersAsBoth_later[OF a]) simp
    with s2 have "calls randomAlbumIter_Next n (withFetchers gd gr r1)
        = Some (xs, withFetchers gd gr r')" by simp
    ultimately show ?thesis by (simp add: outs)
  qed
  with L1 L2 show ?case by simp
qed

text \<open>
  Claim C10. Take two runs of the same construction: the same filter (and, for the
  random album iterator, the same callback), over fetch functions that may differ. If
  the \<open>n\<close> calls of \<open>Next\<close> of the first run return, and the fetch functions of the
  second run answer every fetch that the first run issued as it was answered there,
  then the \<open>n\<close> calls of the second run return too, with the same results in the same
  order, and leave the same iterator but for the fetch functions: the same fetches were
  issued and the same prefetches spawned. So the results of \<open>Next\<close> are determined by
  the construction and the responses of the server alone, for the generic iterator and
  for the random album iterator alike.
\<close>

theorem C10_same_responses_same_results:
  "(calls baseIter_Next n (newBaseIter flt f) = Some (outs, r') \<and> answersAs g 0 (b_log r') \<longrightarrow>
      calls baseIter_Next n (newBaseIter flt g) = Some (outs, withFetcher g r')) \<and>
   (calls randomAlbumIter_Next n (NewRandomAlbumIter fd fr aflt cb) = Some (aouts, q') \<and>
    answersAsBoth gd gr 0 (r_log q') \<longrightarrow>
      calls randomAlbumIter_Next n (NewRandomAlbumIter gd gr aflt cb)
        = Some (aouts, withFetchers gd gr q'))"
proof (intro conjI impI)
  assume a: "calls baseIter_Next n (newBaseIter flt f) = Some (outs, r') \<and> answersAs g 0 (b_log r')"
  have w: "withFetcher g (newBaseIter flt f) = newBaseIter flt g"
    and l: "b_log (newBaseIter flt f) = []"
    by (simp_all add: withFetcher_def newBaseIter_def)
  from a calls_baseIter_withFetcher[of n "newBaseIter flt f" outs r' g]
  have "calls baseIter_Next n (withFetcher g (newBaseIter flt f)) = Some (outs, withFetcher g r')"
    unfolding l by (simp del: calls.simps)
  then show "calls baseIter_Next n (newBaseIter flt g) = Some (outs, withFetcher g r')"
    unfolding w .
next
  assume a: "calls randomAlbumIter_Next n (NewRandomAlbumIter fd fr aflt cb) = Some (aouts, q') \<and>
    answersAsBoth gd gr 0 (r_log q')"
  have w: "withFetchers gd gr (NewRandomAlbumIter fd fr aflt cb) = NewRandomAlbumIter gd gr aflt cb"
    and l: "r_log (NewRandomAlbumIter fd fr aflt cb) = []"
    by (simp_all add: withFetchers_def NewRandomAlbumIter_def)
  from a calls_randomAlbumIter_withFetchers[of n "NewRandomAlbumIter fd fr aflt cb" aouts q' gd gr]
  have "calls randomAlbumIter_Next n (withFetchers gd gr (NewRandomAlbumIter fd fr aflt cb))
          = Some (aouts, withFetchers gd gr q')"
    unfolding l by (simp del: calls.simps)
  then show "calls randomAlbumIter_Next n (NewRandomAlbumIter gd gr aflt cb)
        = Some (aouts, withFetchers gd gr q')"
    unfolding w .
qed

theorem C10_same_responses_same_results_witness:
  "(\<exists>r'. calls baseIter_Next 3 (newBaseIter nilFilter (scripted [([Some 1, Some (2::nat)], None)]))
            = Some ([Some 1, Some 2, None], r') \<and>
          answersAs (\<lambda>k offset limit. if offset = 0 then ([Some 1, Some 2], None) else ([], None))
            0 (b_log r') \<and>
          calls baseIter_Next 3
            (newBaseIter nilFilter
               (\<lambda>k offset limit. if offset = 0 then ([Some 1, Some 2], None) else ([], None)))
            = Some ([Some 1, Some 2, None],
                    withFetcher
                      (\<lambda>k offset limit. if offset = 0 then ([Some 1, Some 2], None) else ([], None))
                      r')) \<and>
   (\<exists>q'. calls randomAlbumIter_Next 2
            (NewRandomAlbumIter (scripted []) (scripted [([exampleAlbum ''a''], None)]) nilFilter True)
            = Some ([Some (exampleAlbum ''a''), None], q') \<and>
          answersAsBoth
            (\<lambda>k offset limit. if k = 1 then ([], None) else ([exampleAlbum ''b''], None))
            (\<lambda>k offset limit. ([exampleAlbum ''a''], None)) 0 (r_log q') \<and>
          calls randomAlbumIter_Next 2
            (NewRandomAlbumIter
               (\<lambda>k offset limit. if k = 1 then ([], None) else ([exampleAlbum ''b''], None))
               (\<lambda>k offset limit. ([exampleAlbum ''a''], None)) nilFilter True)
            = Some ([Some (exampleAlbum ''a''), None],
                    withFetchers
                      (\<lambda>k offset limit. if k = 1 then ([], None) else ([exampleAlbum ''b''], None))
                      (\<lambda>k offset limit. ([exampleAlbum ''a''], None)) q'))"
proof -
  define f where "f = scripted [([Some 1, Some (2::nat)], None :: error option)]"
  define g :: "nat option fetchFn" where
    "g = (\<lambda>k offset limit. if offset = 0 then ([Some 1, Some 2], None) else ([], None))"
  define outs where "outs = [Some 1, Some 2, None :: nat option]"
  define fd where "fd = (scripted [] :: Album fetchFn)"
  define fr where "fr = scripted [([exampleAlbum ''a''], None :: error option)]"
  define gd :: "Album fetchFn" where
    "gd = (\<lambda>k offset limit. if k = 1 then ([], None) else ([exampleAlbum ''b''], None))"
  define gr :: "Album fetchFn" where "gr = (\<lambda>k offset limit. ([exampleAlbum ''a''], None))"
  define aouts where "aouts = [Some (exampleAlbum ''a''), None]"
  obtain r' where r: "calls baseIter_Next 3 (newBaseIter nilFilter f) = Some (outs, r')"
    and lr: "b_log r' = [(0, 20, ([Some 1, Some 2], None)), (2, 20, ([], None))]"
    by (simp add: f_def outs_def base_run_simps)
  obtain q' :: randomAlbumIter where
    q: "calls randomAlbumIter_Next 2 (NewRandomAlbumIter fd fr nilFilter True) = Some (aouts, q')"
    and lq: "r_log q' = [(RandomFetcher, 0, 25, ([exampleAlbum ''a''], None)),
                         (DeterministicFetcher, 0, 25, ([], None))]"
    by (simp add: fd_def fr_def aouts_def run_simps)
  have ag: "answersAs g 0 (b_log r')"
    by (simp add: lr answersAs_def g_def fetchOffset_def fetchLimit_def numeral_2_eq_2)
  have aq: "answersAsBoth gd gr 0 (r_log q')"
    by (simp add: lq answersAsBoth_def gd_def gr_def numeral_2_eq_2)
  from C10_same_responses_same_results[THEN conjunct1, of 3 nilFilter f outs r' g] r ag
  have r2: "calls baseIter_Next 3 (newBaseIter nilFilter g) = Some (outs, withFetcher g r')"
    by (simp del: calls.simps)
  from C10_same_responses_same_results[THEN conjunct2, of 2 fd fr nilFilter True aouts q' gd gr] q aq
  have q2: "calls randomAlbumIter_Next 2 (NewRandomAlbumIter gd gr nilFilter True)
              = Some (aouts, withFetchers gd gr q')"
    by (simp del: calls.simps)
  have "\<exists>r'. calls baseIter_Next 3 (newBaseIter nilFilter f) = Some (outs, r') \<and>
          answersAs g 0 (b_log r') \<and>
          calls baseIter_Next 3 (newBaseIter nilFilter g) = Some (outs, withFetcher g r')"
    using r ag r2 by (intro exI[of _ r']) (simp del: calls.simps)
  moreover have "\<exists>q'. calls randomAlbumIter_Next 2 (NewRandomAlbumIter fd fr nilFilter True)
            = Some (aouts, q') \<and>
          answersAsBoth gd gr 0 (r_log q') \<and>
          calls randomAlbumIter_Next 2 (NewRandomAlbumIter gd gr nilFilter True)
            = Some (aouts, withFetchers gd gr q')"
    using q aq q2 by (intro exI[of _ q']) (simp del: calls.simps)
  ultimately show ?thesis
    unfolding f_def g_def outs_def fd_def fr_def gd_def gr_def aouts_def by (rule conjI)
qed

end
